theory Spec2Isabelle
  imports Main
begin

section \<open>The wlog URI generator of httperf (src/gen/uri\_wlog.c)\<close>

text \<open>
  The module replays a log of request URIs. Its file-scope state is three pointers into a
  read-only mapping of the log file: \<open>fbase\<close>, \<open>fend\<close> and \<open>fcurrent\<close>. The embedding keeps
  them as offsets from \<open>fbase\<close>, which are integers: \<open>fcurrent\<close> can be moved in front of
  \<open>fbase\<close>. A C pointer into a byte object is the list of bytes readable from it up to the end
  of that object; a read through a pointer whose list is empty is an access outside the object,
  which the embedding reports as an error value instead of leaving it undefined. Bytes are
  \<^typ>\<open>char\<close>, strings are \<^typ>\<open>string\<close>.

  The variables \<open>len\<close>, \<open>len_to_advance\<close> and \<open>extra_request_headers_len\<close> of \<open>set_uri\<close> are C
  \<open>int\<close>s of 32 bits; \<open>size_t\<close> and \<open>long\<close> have 64 bits (LP64). The value of a C \<open>int\<close> is an
  \<^typ>\<open>int\<close> between \<open>INT_MIN\<close> and \<open>INT_MAX\<close>. Assigning a \<open>size_t\<close> to an \<open>int\<close> keeps the low
  32 bits (\<open>to_int\<close>), passing an \<open>int\<close> for a \<open>size_t\<close> reduces it modulo \<open>2^64\<close>
  (\<open>to_size_t\<close>), and an \<open>int\<close> addition or subtraction whose result does not fit is undefined,
  which the embedding reports as the error \<open>Int_overflow\<close> (\<open>c_int\<close>).

  The debugging output (\<open>DBG > 5\<close>) and the \<open>verbose\<close> trace of \<open>set_uri\<close> write to the terminal
  only and are left out; the diagnostic of \<open>unescape_local\<close> is kept, as the list of characters
  it complained about. \<open>stop_wlog\<close> only unmaps the file and has no part in what follows.
\<close>

subsection \<open>Bytes and errors\<close>

abbreviation NUL :: char where "NUL \<equiv> CHR 0x00"
abbreviation CTRL_A :: char where "CTRL_A \<equiv> CHR 0x01"
abbreviation BSLASH :: char where "BSLASH \<equiv> CHR 0x5C"

datatype error =
    Panic_cant_open          \<comment> \<open>\<open>panic ("can't open ...")\<close>\<close>
  | Panic_file_empty         \<comment> \<open>\<open>panic ("file ... is empty")\<close>\<close>
  | Panic_cant_mmap          \<comment> \<open>\<open>panic ("can't mmap the file")\<close>\<close>
  | Panic_strdup             \<comment> \<open>\<open>panic ("strdup() failed")\<close>\<close>
  | Panic_no_valid_URIs      \<comment> \<open>\<open>panic ("... does not contain any valid URIs")\<close>\<close>
  | Wlog_overrun             \<comment> \<open>a read through a pointer into the log left the readable memory of the mapping\<close>
  | Heap_overrun             \<comment> \<open>\<open>unescape_local\<close> left the block of \<open>str\<close> or of \<open>dst\<close>\<close>
  | Null_pointer             \<comment> \<open>a \<open>NULL\<close> pointer handed to \<open>memset\<close> or \<open>strdup\<close>\<close>
  | Int_overflow             \<comment> \<open>an \<open>int\<close> addition or subtraction left the range of \<open>int\<close>\<close>

subsection \<open>C integers\<close>

definition INT_MAX :: int where
  "INT_MAX = 2147483647"

definition INT_MIN :: int where
  "INT_MIN = - 2147483648"

text \<open>The \<open>int\<close> that an assignment makes of a \<open>size_t\<close> value \<open>n\<close>: \<open>n\<close> reduced modulo \<open>2^32\<close>
  into the range of \<open>int\<close>.\<close>

definition to_int :: "int \<Rightarrow> int" where
  "to_int n = (n + 2147483648) mod 4294967296 - 2147483648"

text \<open>The \<open>size_t\<close> that a parameter of that type makes of an \<open>int\<close> value \<open>n\<close>: \<open>n\<close> modulo
  \<open>2^64\<close>.\<close>

definition to_size_t :: "int \<Rightarrow> nat" where
  "to_size_t n = nat (n mod 18446744073709551616)"

text \<open>The result of an \<open>int\<close> addition or subtraction whose mathematical value is \<open>n\<close>.\<close>

definition c_int :: "int \<Rightarrow> error + int" where
  "c_int n = (if INT_MIN \<le> n \<and> n \<le> INT_MAX then Inr n else Inl Int_overflow)"

subsection \<open>The C library functions the module calls\<close>

text \<open>\<open>strlen (p)\<close>: the number of bytes before the first NUL; \<open>None\<close> when the scan leaves the
  object \<open>p\<close> points into.\<close>

fun c_strlen :: "char list \<Rightarrow> nat option" where
  "c_strlen [] = None"
| "c_strlen (b # bs) = (if b = NUL then Some 0 else map_option Suc (c_strlen bs))"

text \<open>\<open>memchr (p, c, n)\<close>: the scan goes through the first \<open>n\<close> bytes and stops at the first
  \<open>c\<close>. The result is \<open>Some (Some i)\<close> for a \<open>c\<close> at offset \<open>i\<close>, \<open>Some None\<close> for the \<open>NULL\<close>
  result, and \<open>None\<close> when the scan leaves the object \<open>p\<close> points into before it has met a
  \<open>c\<close> or gone through \<open>n\<close> bytes.\<close>

fun c_memchr :: "char list \<Rightarrow> char \<Rightarrow> nat \<Rightarrow> nat option option" where
  "c_memchr bs c 0 = Some None"
| "c_memchr [] c (Suc n) = None"
| "c_memchr (b # bs) c (Suc n) =
     (if b = c then Some (Some 0) else map_option (map_option Suc) (c_memchr bs c n))"

text \<open>The value of \<open>LONG_MAX\<close> on an LP64 platform, \<open>2^63 - 1\<close>; \<open>strtol\<close> returns it on
  overflow.\<close>

definition LONG_MAX :: int where
  "LONG_MAX = 9223372036854775807"

definition is_octal :: "char \<Rightarrow> bool" where
  "is_octal c \<longleftrightarrow> (48::nat) \<le> of_char c \<and> of_char c \<le> (55::nat)"

definition is_digit :: "char \<Rightarrow> bool" where
  "is_digit c \<longleftrightarrow> (48::nat) \<le> of_char c \<and> of_char c \<le> (57::nat)"

text \<open>The octal digits in front of a string, read most significant digit first.\<close>

fun oct_value :: "int \<Rightarrow> char list \<Rightarrow> int" where
  "oct_value acc [] = acc"
| "oct_value acc (d # ds) = oct_value (acc * 8 + (of_char d - 48)) ds"

text \<open>\<open>strtol (p, &end, 8)\<close> for a \<open>p\<close> that starts with a digit (no white space, no sign):
  the value of the longest run of octal digits, \<open>LONG_MAX\<close> when it does not fit a \<open>long\<close>, and
  \<open>end\<close> behind the run. With no octal digit at all the value is 0 and \<open>end\<close> is \<open>p\<close>.\<close>

definition strtol8 :: "char list \<Rightarrow> int \<times> char list" where
  "strtol8 p = (min (oct_value 0 (takeWhile is_octal p)) LONG_MAX, dropWhile is_octal p)"

subsection \<open>\<open>unescape_local\<close>\<close>

text \<open>A result of the decoding loop: the bytes stored through \<open>dp\<close> and the characters reported
  on \<open>stderr\<close> as unknown escape sequences.\<close>

type_synonym decoded = "char list \<times> char list"

definition emit :: "char list \<Rightarrow> char list \<Rightarrow> error + decoded \<Rightarrow> error + decoded" where
  "emit bs ws r = (case r of Inl e \<Rightarrow> Inl e | Inr (out, warns) \<Rightarrow> Inr (bs @ out, ws @ warns))"

text \<open>The loop \<open>for (cp = str, dp = dst; (ch = *cp++); )\<close>. The argument is \<open>cp\<close>. Assigning the
  \<open>long\<close> of \<open>strtol\<close> to the \<open>int\<close> \<open>ch\<close> and storing \<open>ch\<close> through \<open>dp\<close> keeps the low eight
  bits of the value (\<^const>\<open>char_of\<close>). After \<open>strtol\<close> the loop goes on where \<open>strtol\<close>
  stopped, which is at the digit itself when the digit is 8 or 9.\<close>

function unescape_loop :: "char list \<Rightarrow> error + decoded" where
  "unescape_loop [] = Inl Heap_overrun"
| "unescape_loop (ch # cp) =
     (if ch = NUL then Inr ([], [])
      else if ch \<noteq> BSLASH then emit [ch] [] (unescape_loop cp)
      else (case cp of
              [] \<Rightarrow> Inl Heap_overrun
            | e # cp' \<Rightarrow>
                if e = BSLASH then emit [BSLASH] [] (unescape_loop cp')
                else if e = CHR ''a'' then emit [CHR 0x0A] [] (unescape_loop cp')
                else if e = CHR ''r'' then emit [CHR 0x0D] [] (unescape_loop cp')
                else if e = CHR ''n'' then emit [CHR 0x0D, CHR 0x0A] [] (unescape_loop cp')
                else if is_digit e then
                  emit [char_of (fst (strtol8 (e # cp')))] [] (unescape_loop (snd (strtol8 (e # cp'))))
                else emit [e] [e] (unescape_loop cp')))"
  by pat_completeness auto
termination
proof (relation "measure length")
  show "wf (measure (length :: char list \<Rightarrow> nat))" by simp
next
  fix ch e :: char and cp cp' :: "char list"
  assume "cp = e # cp'"
  then show "(snd (strtol8 (e # cp')), ch # cp) \<in> measure length"
    using length_dropWhile_le [of is_octal "e # cp'"] by (simp add: strtol8_def del: dropWhile.simps)
qed auto

text \<open>\<open>unescape_local (str, &len)\<close>. The argument \<open>heap_ok\<close> says whether the allocator can
  serve a request. \<open>strdup\<close> reads \<open>str\<close> up to its NUL and gives \<open>dst\<close> \<open>strlen (str) + 1\<close>
  bytes; the result is the bytes written to \<open>dst\<close> (\<open>len\<close> is their number) and the
  diagnostics.\<close>

definition unescape_local :: "bool \<Rightarrow> char list \<Rightarrow> error + decoded" where
  "unescape_local heap_ok str =
     (case c_strlen str of
        None \<Rightarrow> Inl Heap_overrun
      | Some n \<Rightarrow>
          if \<not> heap_ok then Inl Panic_strdup
          else (case unescape_loop str of
                  Inl e \<Rightarrow> Inl e
                | Inr (out, warns) \<Rightarrow>
                    if n + 1 < length out then Inl Heap_overrun else Inr (out, warns)))"

subsection \<open>The host's parameters and call object\<close>

record param =
  wlog_do_loop :: bool                  \<comment> \<open>\<open>param.wlog.do_loop\<close>\<close>
  use_embedded_http_headers :: bool     \<comment> \<open>\<open>param.use_embedded_http_headers\<close>\<close>

text \<open>Modelled from the spec: the call object of \<open>call.h\<close>, which is not part of the module. The
  spec gives it two operations, \<open>set_target (bytes, length)\<close> and
  \<open>append_header (bytes, length)\<close>: the first replaces the request target, the second adds one
  more header string to the request.\<close>

record call =
  req_uri :: "char list"
  req_extra_hdrs :: "char list list"

definition call_set_uri :: "call \<Rightarrow> char list \<Rightarrow> call" where
  "call_set_uri c uri = c\<lparr>req_uri := uri\<rparr>"

definition call_append_request_header :: "call \<Rightarrow> char list \<Rightarrow> call" where
  "call_append_request_header c hdr = c\<lparr>req_extra_hdrs := req_extra_hdrs c @ [hdr]\<rparr>"

subsection \<open>The module's state\<close>

record world =
  mem :: "char list"          \<comment> \<open>the bytes readable from \<open>fbase\<close> on: the file, then what the mapping holds behind it\<close>
  fend :: int                 \<comment> \<open>\<open>fend - fbase\<close>, the size of the file\<close>
  fcurrent :: int             \<comment> \<open>\<open>fcurrent - fbase\<close>\<close>
  heap_ok :: bool             \<comment> \<open>whether \<open>malloc\<close> and \<open>strdup\<close> succeed\<close>
  core_exit_calls :: nat      \<comment> \<open>how often \<open>core_exit ()\<close> has been called\<close>
  stderr_warn :: "char list"  \<comment> \<open>the unknown escape characters reported so far\<close>

text \<open>The bytes readable through the pointer \<open>fbase + p\<close>. Nothing is readable in front of
  \<open>fbase\<close>, where the mapping begins.\<close>

definition bytes_at :: "world \<Rightarrow> int \<Rightarrow> char list" where
  "bytes_at w p = (if p < 0 then [] else drop (nat p) (mem w))"

text \<open>\<open>init_wlog\<close>: \<open>file\<close> is the content of \<open>param.wlog.file\<close> (\<open>None\<close> when \<open>open\<close> fails),
  \<open>mapped\<close> the bytes readable behind the file's last byte once it is mapped (\<open>None\<close> when
  \<open>mmap\<close> fails), \<open>ok\<close> the state of the allocator. \<open>mapped_log\<close> is the state after the
  mapping.\<close>

definition mapped_log :: "char list \<Rightarrow> char list \<Rightarrow> bool \<Rightarrow> world" where
  "mapped_log bytes behind ok =
     \<lparr>mem = bytes @ behind, fend = int (length bytes), fcurrent = 0,
      heap_ok = ok, core_exit_calls = 0, stderr_warn = []\<rparr>"

definition init_wlog :: "char list option \<Rightarrow> char list option \<Rightarrow> bool \<Rightarrow> error + world" where
  "init_wlog file mapped ok =
     (case file of
        None \<Rightarrow> Inl Panic_cant_open
      | Some bytes \<Rightarrow>
          if length bytes = 0 then Inl Panic_file_empty
          else (case mapped of
                  None \<Rightarrow> Inl Panic_cant_mmap
                | Some behind \<Rightarrow> Inr (mapped_log bytes behind ok)))"

subsection \<open>\<open>set_uri\<close>\<close>

text \<open>The loop \<open>while (*ptr)\<close> over the header block, \<open>ptr\<close> being the first argument and the
  \<open>int\<close> \<open>extra_request_headers_len\<close> the second. The result is the final length and whether
  the control-A was met (\<open>erh_2\<close> allocated); the error is \<open>Wlog_overrun\<close> when the scan leaves
  the readable memory and \<open>Int_overflow\<close> when \<open>extra_request_headers_len++\<close> overflows.\<close>

fun hdr_scan :: "char list \<Rightarrow> int \<Rightarrow> error + (bool \<times> int)" where
  "hdr_scan [] n = Inl Wlog_overrun"
| "hdr_scan (b # bs) n =
     (if b = NUL then Inr (False, n)
      else if b = CTRL_A then Inr (True, n)
      else (case c_int (n + 1) of
              Inl e \<Rightarrow> Inl e
            | Inr n' \<Rightarrow> hdr_scan bs n'))"

text \<open>The block \<open>erh_2\<close> points to: \<open>malloc\<close> gives \<open>extra_request_headers_len + 1\<close> bytes,
  \<open>memset\<close> clears them and \<open>memcpy\<close> copies the header bytes from the log into them.\<close>

definition header_block :: "char list \<Rightarrow> int \<Rightarrow> char list" where
  "header_block extra_request_headers hlen =
     take (to_size_t hlen) extra_request_headers @ [NUL]"

text \<open>The block \<open>if (param.use_embedded_http_headers)\<close>: \<open>uri\<close> is an offset from \<open>fbase\<close> and
  \<open>len\<close> the \<open>int\<close> of that name. The result is the new \<open>uri\<close> and \<open>len\<close>, the world (with the
  diagnostics) and the call. \<open>memchr\<close> takes \<open>len\<close> as a \<open>size_t\<close>. When \<open>malloc\<close> returns
  \<open>NULL\<close>, \<open>memset\<close> writes through it; when the loop over the header block ends at a NUL,
  \<open>erh_2\<close> is still \<open>NULL\<close> and \<open>unescape_local\<close> hands it to \<open>strdup\<close>.\<close>

definition embedded_headers ::
  "param \<Rightarrow> world \<Rightarrow> int \<Rightarrow> int \<Rightarrow> call \<Rightarrow> error + (int \<times> int \<times> world \<times> call)" where
  "embedded_headers p w uri len c =
     (if \<not> use_embedded_http_headers p then Inr (uri, len, w, c)
      else (case c_memchr (bytes_at w uri) CTRL_A (to_size_t len) of
              None \<Rightarrow> Inl Wlog_overrun
            | Some None \<Rightarrow> Inr (uri, len, w, c)
            | Some (Some i) \<Rightarrow>
                (case hdr_scan (bytes_at w uri) 0 of
                   Inl e \<Rightarrow> Inl e
                 | Inr (found, hlen) \<Rightarrow>
                     if \<not> found then Inl Null_pointer
                     else (case c_int (hlen + 1) of
                             Inl e \<Rightarrow> Inl e
                           | Inr sz \<Rightarrow>
                               if \<not> heap_ok w then Inl Null_pointer
                               else (case unescape_local (heap_ok w)
                                            (header_block (bytes_at w uri) hlen) of
                                       Inl e \<Rightarrow> Inl e
                                     | Inr (escaped, warns) \<Rightarrow>
                                         (case c_int (len - sz) of
                                            Inl e \<Rightarrow> Inl e
                                          | Inr len' \<Rightarrow>
                                              Inr (uri + int i + 1, len',
                                                   w\<lparr>stderr_warn := stderr_warn w @ warns\<rparr>,
                                                   call_append_request_header c escaped)))))))"

text \<open>Modelled from the spec: \<open>core_exit\<close> of \<open>core.h\<close>, the host's signal to begin its shutdown.
  The world counts the calls.\<close>

definition core_exit :: "world \<Rightarrow> world" where
  "core_exit w = w\<lparr>core_exit_calls := Suc (core_exit_calls w)\<rparr>"

text \<open>The block \<open>if (fcurrent >= fend)\<close> at the head of the loop body. The result is
  \<open>did_wrap\<close> and the world.\<close>

definition wrap_around :: "param \<Rightarrow> bool \<Rightarrow> world \<Rightarrow> error + (bool \<times> world)" where
  "wrap_around p did_wrap w =
     (if fend w \<le> fcurrent w then
        if did_wrap then Inl Panic_no_valid_URIs
        else Inr (True, if wlog_do_loop p then w\<lparr>fcurrent := 0\<rparr>
                        else core_exit (w\<lparr>fcurrent := 0\<rparr>))
      else Inr (did_wrap, w))"

text \<open>One pass through the body of the \<open>do ... while (len == 0)\<close> loop. The result is \<open>len\<close>,
  \<open>did_wrap\<close>, the world and the call. \<open>len = strlen (fcurrent)\<close> assigns a \<open>size_t\<close> to an
  \<open>int\<close>; \<open>call_set_uri (c, uri, len)\<close> stores \<open>len\<close> as a \<open>size_t\<close>, the request target being
  that many bytes at \<open>uri\<close>; \<open>len_to_advance + 1\<close> is an \<open>int\<close> addition, and its result is
  added to the pointer \<open>fcurrent\<close>.\<close>

definition set_uri_body ::
  "param \<Rightarrow> bool \<Rightarrow> world \<Rightarrow> call \<Rightarrow> error + (int \<times> bool \<times> world \<times> call)" where
  "set_uri_body p did_wrap w c =
     (case wrap_around p did_wrap w of
        Inl e \<Rightarrow> Inl e
      | Inr (did_wrap1, w1) \<Rightarrow>
          (case c_strlen (bytes_at w1 (fcurrent w1)) of
             None \<Rightarrow> Inl Wlog_overrun
           | Some n \<Rightarrow>
               (case embedded_headers p w1 (fcurrent w1) (to_int (int n)) c of
                  Inl e \<Rightarrow> Inl e
                | Inr (uri, len, w2, c2) \<Rightarrow>
                    (case c_int (to_int (int n) + 1) of
                       Inl e \<Rightarrow> Inl e
                     | Inr step \<Rightarrow>
                         Inr (len, did_wrap1,
                              w2\<lparr>fcurrent := fcurrent w1 + step\<rparr>,
                              call_set_uri c2 (take (to_size_t len) (bytes_at w1 uri)))))))"

text \<open>The header block changes neither the pointers nor the memory.\<close>

lemma embedded_headers_frame:
  assumes "embedded_headers p w uri len c = Inr (uri', len', w', c')"
  shows "fend w' = fend w" "fcurrent w' = fcurrent w" "mem w' = mem w"
    "heap_ok w' = heap_ok w" "core_exit_calls w' = core_exit_calls w"
  using assms
  by (auto simp: embedded_headers_def split: if_splits option.splits sum.splits prod.splits)

lemma c_int_Inr: "c_int n = Inr m \<longleftrightarrow> m = n \<and> INT_MIN \<le> n \<and> n \<le> INT_MAX"
  by (auto simp: c_int_def)

lemma hdr_scan_ge: "hdr_scan bs n = Inr (found, hlen) \<Longrightarrow> n \<le> hlen"
proof (induction bs arbitrary: n)
  case Nil
  then show ?case by simp
next
  case (Cons b bs)
  show ?case
  proof (cases "b = NUL \<or> b = CTRL_A")
    case True
    with Cons.prems show ?thesis by (auto split: if_splits)
  next
    case False
    with Cons.prems have "hdr_scan bs (n + 1) = Inr (found, hlen)"
      by (auto simp: c_int_Inr split: sum.splits)
    from Cons.IH [OF this] show ?thesis by simp
  qed
qed

text \<open>A pass that ends with \<open>len = 0\<close> started with a \<open>len\<close> that is not negative.\<close>

lemma embedded_headers_zero:
  assumes "embedded_headers p w uri len c = Inr (uri', 0, w', c')"
  shows "0 \<le> len"
proof (cases "embedded_headers p w uri len c = Inr (uri, len, w, c)")
  case True
  with assms show ?thesis by simp
next
  case False
  with assms obtain found hlen where
    s: "hdr_scan (bytes_at w uri) 0 = Inr (found, hlen)"
    and l: "c_int (len - (hlen + 1)) = Inr 0"
    by (auto simp: embedded_headers_def c_int_Inr
        split: if_splits option.splits sum.splits prod.splits)
  from hdr_scan_ge [OF s] l show ?thesis by (simp add: c_int_Inr)
qed

text \<open>Each pass that ends with \<open>len = 0\<close> either wraps around for the first time or moves
  \<open>fcurrent\<close> towards \<open>fend\<close>.\<close>

lemma set_uri_body_measure:
  assumes "set_uri_body p dw w c = Inr (0, dw', w', c')"
  shows "(\<not> dw \<and> dw') \<or>
         (dw' = dw \<and> fend w' = fend w \<and> fcurrent w < fend w \<and> fcurrent w < fcurrent w')"
proof (cases "fend w \<le> fcurrent w")
  case True
  with assms show ?thesis
    by (auto simp: set_uri_body_def wrap_around_def split: if_splits option.splits sum.splits)
next
  case False
  then have "wrap_around p dw w = Inr (dw, w)"
    by (simp add: wrap_around_def)
  with assms obtain n uri w2 c2 where
    b: "embedded_headers p w (fcurrent w) (to_int (int n)) c = Inr (uri, 0, w2, c2)"
    and s: "INT_MIN \<le> to_int (int n) + 1" "to_int (int n) + 1 \<le> INT_MAX"
    and w': "w' = w2\<lparr>fcurrent := fcurrent w + (to_int (int n) + 1)\<rparr>" and dw': "dw' = dw"
    by (auto simp: set_uri_body_def c_int_Inr split: option.splits sum.splits)
  from embedded_headers_zero [OF b] embedded_headers_frame(1) [OF b] w' dw' False
  show ?thesis by auto
qed

text \<open>The loop \<open>do ... while (len == 0)\<close>, and \<open>set_uri\<close>, which enters it with
  \<open>did_wrap = 0\<close>. The assertion on the event type and the call is a matter of types here.\<close>

function set_uri_loop :: "param \<Rightarrow> bool \<Rightarrow> world \<Rightarrow> call \<Rightarrow> error + (world \<times> call)" where
  "set_uri_loop p did_wrap w c =
     (case set_uri_body p did_wrap w c of
        Inl e \<Rightarrow> Inl e
      | Inr (len, did_wrap', w', c') \<Rightarrow>
          if len = 0 then set_uri_loop p did_wrap' w' c' else Inr (w', c'))"
  by pat_completeness auto
termination
proof (relation "measures [\<lambda>(p, dw, w, c). if dw then 0 else 1,
                            \<lambda>(p, dw, w, c). nat (fend w - fcurrent w)]")
  show "wf (measures [\<lambda>(p :: param, dw, w :: world, c :: call). if dw then 0 else 1,
                       \<lambda>(p, dw, w, c). nat (fend w - fcurrent w)])"
    by simp
next
  fix p :: param and did_wrap w and c :: call and x2 len y did_wrap' ya w' c'
  assume "set_uri_body p did_wrap w c = Inr x2" "(len, y) = x2" "(did_wrap', ya) = y"
    "(w', c') = ya" "len = 0"
  then have "set_uri_body p did_wrap w c = Inr (0, did_wrap', w', c')" by simp
  from set_uri_body_measure [OF this]
  show "((p, did_wrap', w', c'), (p, did_wrap, w, c))
          \<in> measures [\<lambda>(p, dw, w, c). if dw then 0 else 1,
                       \<lambda>(p, dw, w, c). nat (fend w - fcurrent w)]"
    by auto
qed

definition set_uri :: "param \<Rightarrow> world \<Rightarrow> call \<Rightarrow> error + (world \<times> call)" where
  "set_uri p w c = set_uri_loop p False w c"

subsection \<open>A host that creates calls\<close>

text \<open>The host signals \<open>EV_CALL_NEW\<close> once for each call it creates, and \<open>set_uri\<close> is the
  handler. \<open>produce p k w\<close> runs the handler on \<open>k\<close> new calls in a row and lists the calls as
  the handler left them.\<close>

definition new_call :: call where
  "new_call = \<lparr>req_uri = [], req_extra_hdrs = []\<rparr>"

fun produce :: "param \<Rightarrow> nat \<Rightarrow> world \<Rightarrow> error + (world \<times> call list)" where
  "produce p 0 w = Inr (w, [])"
| "produce p (Suc k) w =
     (case set_uri p w new_call of
        Inl e \<Rightarrow> Inl e
      | Inr (w', c) \<Rightarrow>
          (case produce p k w' of
             Inl e \<Rightarrow> Inl e
           | Inr (w'', cs) \<Rightarrow> Inr (w'', c # cs)))"

subsection \<open>Logs as lists of records\<close>

text \<open>The format of the log file, \<open>URI1\0URI2\0......URIn\0\<close>: every record is followed by its
  NUL.\<close>

definition wlog_buffer :: "char list list \<Rightarrow> char list" where
  "wlog_buffer rs = concat (map (\<lambda>r. r @ [NUL]) rs)"

text \<open>What one pass of the loop body makes of a record \<open>r\<close>, as a function of the record alone:
  \<open>len\<close>, the diagnostics and the call. This is a view of \<^const>\<open>set_uri_body\<close>; the lemma
  \<open>read_record\<close> below derives it from the code.\<close>

definition pass_record ::
  "param \<Rightarrow> bool \<Rightarrow> char list \<Rightarrow> call \<Rightarrow> error + (int \<times> char list \<times> call)" where
  "pass_record p ok r c =
     (if use_embedded_http_headers p \<and> CTRL_A \<in> set r then
        if \<not> ok then Inl Null_pointer
        else (case unescape_local ok (takeWhile (\<lambda>b. b \<noteq> CTRL_A) r @ [NUL]) of
                Inl e \<Rightarrow> Inl e
              | Inr (escaped, warns) \<Rightarrow>
                  Inr (int (length r) - (int (length (takeWhile (\<lambda>b. b \<noteq> CTRL_A) r)) + 1),
                       warns,
                       call_set_uri (call_append_request_header c escaped)
                         (tl (dropWhile (\<lambda>b. b \<noteq> CTRL_A) r))))
      else Inr (int (length r), [], call_set_uri c r))"

text \<open>The loop over the records \<open>todo\<close> between the cursor and \<open>fend\<close>, as far as it gets
  without wrapping around: whether a pass left the loop (\<open>len\<close> not 0), the number of records
  passed, the diagnostics and the call.\<close>

fun scan_records ::
  "param \<Rightarrow> bool \<Rightarrow> char list list \<Rightarrow> call \<Rightarrow> error + (bool \<times> nat \<times> char list \<times> call)" where
  "scan_records p ok [] c = Inr (False, 0, [], c)"
| "scan_records p ok (r # todo) c =
     (case pass_record p ok r c of
        Inl e \<Rightarrow> Inl e
      | Inr (len, warns, c') \<Rightarrow>
          if len = 0 then
            (case scan_records p ok todo c' of
               Inl e \<Rightarrow> Inl e
             | Inr (produced, k, warns', c'') \<Rightarrow> Inr (produced, Suc k, warns @ warns', c''))
          else Inr (True, 1, warns, c'))"

text \<open>The world after the wrap-around block has reset the cursor.\<close>

definition wrapped_world :: "param \<Rightarrow> world \<Rightarrow> world" where
  "wrapped_world p w = (if wlog_do_loop p then w\<lparr>fcurrent := 0\<rparr> else core_exit (w\<lparr>fcurrent := 0\<rparr>))"

text \<open>\<open>set_uri\<close> on a log with the records \<open>rs\<close>, of which \<open>todo\<close> lie behind the cursor: the
  loop runs to the end of the file, wraps around once and starts again with all the records.
  The result says whether it wrapped around and how many records lie between the start of the
  last scan and the new cursor.\<close>

definition next_uri ::
  "param \<Rightarrow> bool \<Rightarrow> char list list \<Rightarrow> char list list \<Rightarrow> call
     \<Rightarrow> error + (bool \<times> nat \<times> char list \<times> call)" where
  "next_uri p ok rs todo c =
     (case scan_records p ok todo c of
        Inl e \<Rightarrow> Inl e
      | Inr (produced, k, warns, c') \<Rightarrow>
          if produced then Inr (False, k, warns, c')
          else (case scan_records p ok rs c' of
                  Inl e \<Rightarrow> Inl e
                | Inr (produced2, k2, warns2, c2) \<Rightarrow>
                    if produced2 then Inr (True, k2, warns @ warns2, c2)
                    else Inl Panic_no_valid_URIs))"

text \<open>The world of a log with the records \<open>done @ todo\<close> whose cursor is behind \<open>done\<close>.\<close>

definition at_record :: "char list list \<Rightarrow> char list list \<Rightarrow> world \<Rightarrow> bool" where
  "at_record done todo w \<longleftrightarrow>
     take (nat (fend w)) (mem w) = wlog_buffer (done @ todo)
     \<and> fend w = int (length (wlog_buffer (done @ todo)))
     \<and> fcurrent w = int (length (wlog_buffer done))"

subsection \<open>Conditions on logs and parameters\<close>

text \<open>The records with at least one byte, in file order.\<close>

abbreviation nonempty :: "char list list \<Rightarrow> char list list" where
  "nonempty rs \<equiv> filter (\<lambda>r. r \<noteq> []) rs"

text \<open>The records of a log in the format above: no record holds a NUL (the NUL ends the
  record), and every record has fewer than \<open>INT_MAX\<close> bytes, so that its length and the step
  over it and its NUL are values of an \<open>int\<close>.\<close>

definition log_records :: "char list list \<Rightarrow> bool" where
  "log_records rs \<longleftrightarrow> list_all (\<lambda>r. NUL \<notin> set r \<and> int (length r) < INT_MAX) rs"

text \<open>No record holds the control-A that separates embedded headers, unless the headers are
  switched off anyway.\<close>

definition sentinel_free :: "param \<Rightarrow> char list list \<Rightarrow> bool" where
  "sentinel_free p rs \<longleftrightarrow> \<not> use_embedded_http_headers p \<or> list_all (\<lambda>r. CTRL_A \<notin> set r) rs"

text \<open>The two parts of a record in the format \<open>http-headers^AURI\<close>: the header block is what
  stands in front of the first control-A, the target what stands behind it. A record is read in
  that format when the embedded headers are enabled and it holds a control-A; any other record
  is its own target. \<open>uris\<close> lists the targets of a log that are not empty.\<close>

definition header :: "char list \<Rightarrow> char list" where
  "header r = takeWhile (\<lambda>b. b \<noteq> CTRL_A) r"

definition has_header :: "param \<Rightarrow> char list \<Rightarrow> bool" where
  "has_header p r \<longleftrightarrow> use_embedded_http_headers p \<and> CTRL_A \<in> set r"

definition target :: "param \<Rightarrow> char list \<Rightarrow> char list" where
  "target p r = (if has_header p r then tl (dropWhile (\<lambda>b. b \<noteq> CTRL_A) r) else r)"

definition uris :: "param \<Rightarrow> char list list \<Rightarrow> char list list" where
  "uris p rs = filter (\<lambda>t. t \<noteq> []) (map (target p) rs)"

subsection \<open>Strings that end in a lone backslash\<close>

text \<open>The run of backslashes at the end of the string has odd length: its last backslash is
  not escaped by a backslash in front of it and has nothing behind it to escape.\<close>

definition lone_backslash_end :: "char list \<Rightarrow> bool" where
  "lone_backslash_end s \<longleftrightarrow> odd (length (takeWhile (\<lambda>b. b = BSLASH) (rev s)))"

text \<open>The header block of a record can be allocated and decoded: the allocator serves requests
  and the block does not end in a lone backslash. This is asked of the records that are read in
  the format \<open>http-headers^AURI\<close> only.\<close>

definition decodes :: "param \<Rightarrow> bool \<Rightarrow> char list \<Rightarrow> bool" where
  "decodes p ok r \<longleftrightarrow> (if has_header p r then ok \<and> \<not> lone_backslash_end (header r) else True)"

definition headers_ok :: "param \<Rightarrow> bool \<Rightarrow> char list list \<Rightarrow> bool" where
  "headers_ok p ok rs \<longleftrightarrow> list_all (decodes p ok) rs"

subsection \<open>Parameter settings and observations\<close>

text \<open>Four parameter settings for the examples.\<close>

definition plain_mode :: param where
  "plain_mode = \<lparr>wlog_do_loop = False, use_embedded_http_headers = False\<rparr>"


definition header_mode :: param where
  "header_mode = \<lparr>wlog_do_loop = False, use_embedded_http_headers = True\<rparr>"


text \<open>What the host sees of a run of \<open>k\<close> calls: the request targets.\<close>

definition targets :: "param \<Rightarrow> nat \<Rightarrow> world \<Rightarrow> error + char list list" where
  "targets p k w = (case produce p k w of Inl e \<Rightarrow> Inl e | Inr (w', cs) \<Rightarrow> Inr (map req_uri cs))"

text \<open>A record of \<open>2^31\<close> bytes, one byte more than \<open>INT_MAX\<close>, and a record of \<open>2^31 - 3\<close>
  bytes, which with its NUL and one more byte fills the \<open>2^31 - 1\<close> bytes in front of a
  record.\<close>

definition long_record :: "char list" where
  "long_record = replicate 2147483648 (CHR ''a'')"

definition filler_record :: "char list" where
  "filler_record = replicate 2147483645 (CHR ''b'')"

text \<open>What is left of a result once the world is projected away: the cursor and \<open>fend\<close>, the
  call, and \<open>len\<close> with the call, or alone, after one pass of the loop body.\<close>

definition cursor_after :: "error + (world \<times> 'a) \<Rightarrow> error + (int \<times> int)" where
  "cursor_after r = (case r of Inl e \<Rightarrow> Inl e | Inr (w, c) \<Rightarrow> Inr (fcurrent w, fend w))"

definition call_after :: "error + (world \<times> call) \<Rightarrow> error + call" where
  "call_after r = (case r of Inl e \<Rightarrow> Inl e | Inr (w, c) \<Rightarrow> Inr c)"

definition pass_result :: "error + (int \<times> bool \<times> world \<times> call) \<Rightarrow> error + (int \<times> call)" where
  "pass_result r = (case r of Inl e \<Rightarrow> Inl e | Inr (len, dw, w, c) \<Rightarrow> Inr (len, c))"

definition pass_len :: "error + (int \<times> bool \<times> world \<times> call) \<Rightarrow> error + int" where
  "pass_len r = (case r of Inl e \<Rightarrow> Inl e | Inr (len, dw, w, c) \<Rightarrow> Inr len)"

subsection \<open>Comparing two logs\<close>

text \<open>What the host sees of a run of \<open>k\<close> calls: the calls, with their URIs and headers. And the
  bytes of a log in which every run of consecutive NULs has been collapsed to one NUL.\<close>

definition requests :: "param \<Rightarrow> nat \<Rightarrow> world \<Rightarrow> error + call list" where
  "requests p k w = (case produce p k w of Inl e \<Rightarrow> Inl e | Inr (w', cs) \<Rightarrow> Inr cs)"

fun collapse_terminators :: "char list \<Rightarrow> char list" where
  "collapse_terminators (a # b # bs) =
     (if a = NUL \<and> b = NUL then collapse_terminators (b # bs)
      else a # collapse_terminators (b # bs))"
| "collapse_terminators bs = bs"

text \<open>Two scans, over the records \<open>t1\<close> and \<open>t2\<close>, went the same way: the same error, or the same
  diagnostics and headers, the same call if a pass left the loop, and the same non-empty records
  still to come.\<close>

definition scan_sim ::
  "char list list \<Rightarrow> char list list \<Rightarrow> error + (bool \<times> nat \<times> char list \<times> call)
     \<Rightarrow> error + (bool \<times> nat \<times> char list \<times> call) \<Rightarrow> bool" where
  "scan_sim t1 t2 x y =
     (case x of
        Inl e \<Rightarrow> y = Inl e
      | Inr (pr1, k1, ws1, c1) \<Rightarrow>
          (case y of
             Inl e \<Rightarrow> False
           | Inr (pr2, k2, ws2, c2) \<Rightarrow>
               pr1 = pr2 \<and> ws1 = ws2 \<and> req_extra_hdrs c1 = req_extra_hdrs c2
               \<and> (pr1 \<longrightarrow> c1 = c2)
               \<and> nonempty (drop k1 t1) = nonempty (drop k2 t2)))"

text \<open>Two worlds, on logs with the records \<open>rs1\<close> and \<open>rs2\<close>, have the same non-empty records
  behind their cursors and the same allocator.\<close>

definition same_position :: "char list list \<Rightarrow> char list list \<Rightarrow> world \<Rightarrow> world \<Rightarrow> bool" where
  "same_position rs1 rs2 w1 w2 \<longleftrightarrow>
     (\<exists>d1 t1 d2 t2. at_record d1 t1 w1 \<and> d1 @ t1 = rs1 \<and> at_record d2 t2 w2 \<and> d2 @ t2 = rs2
        \<and> nonempty t1 = nonempty t2)
     \<and> heap_ok w1 = heap_ok w2"

section \<open>Properties\<close>

subsection \<open>C integers and the library functions\<close>

lemma to_int_small: "0 \<le> n \<Longrightarrow> n \<le> INT_MAX \<Longrightarrow> to_int n = n"
  by (simp add: to_int_def INT_MAX_def)

lemma to_size_t_small: "0 \<le> n \<Longrightarrow> n \<le> INT_MAX \<Longrightarrow> to_size_t n = nat n"
  by (simp add: to_size_t_def INT_MAX_def)

lemma c_int_small: "0 \<le> n \<Longrightarrow> n \<le> INT_MAX \<Longrightarrow> c_int n = Inr n"
  by (simp add: c_int_def INT_MIN_def)

lemma bytes_at_add: "0 \<le> x \<Longrightarrow> bytes_at w (x + int k) = drop k (bytes_at w x)"
  by (simp add: bytes_at_def nat_add_distrib add.commute)

lemma bytes_at_nonneg: "bytes_at w x \<noteq> [] \<Longrightarrow> 0 \<le> x"
  by (simp add: bytes_at_def split: if_splits)

lemma c_strlen_record: "NUL \<notin> set r \<Longrightarrow> c_strlen (r @ NUL # post) = Some (length r)"
  by (induction r) auto

lemma c_memchr_none:
  "c \<notin> set (take n bs) \<Longrightarrow> n \<le> length bs \<Longrightarrow> c_memchr bs c n = Some None"
  by (induction bs c n rule: c_memchr.induct) auto

lemma c_memchr_some:
  "c \<notin> set h \<Longrightarrow> length h < n \<Longrightarrow> c_memchr (h @ c # t) c n = Some (Some (length h))"
proof (induction h arbitrary: n)
  case Nil
  then show ?case by (cases n) auto
next
  case (Cons a h)
  then show ?case by (cases n) auto
qed

lemma oct_value_append: "oct_value acc (xs @ ys) = oct_value (oct_value acc xs) ys"
  by (induction xs arbitrary: acc) auto

lemma strtol8_run:
  assumes "\<forall>d\<in>set ds. is_octal d" "rest = [] \<or> \<not> is_octal (hd rest)"
  shows "strtol8 (ds @ rest) = (min (oct_value 0 ds) LONG_MAX, rest)"
proof -
  have "takeWhile is_octal (ds @ rest) = ds" "dropWhile is_octal (ds @ rest) = rest"
    using assms by (cases rest; simp)+
  then show ?thesis by (simp add: strtol8_def)
qed

subsection \<open>The escape decoder\<close>

lemma emit_Inl: "emit bs ws (Inl e) = Inl e"
  by (simp add: emit_def)

lemma emit_Inr: "emit bs ws (Inr (out, warns)) = Inr (bs @ out, ws @ warns)"
  by (simp add: emit_def)

lemma not_digit_NUL: "\<not> is_digit NUL"
  by (simp add: is_digit_def)

lemma is_octal_int: "is_octal d \<longleftrightarrow> (48::int) \<le> of_char d \<and> of_char d \<le> (55::int)"
proof -
  have "(of_char d :: int) = int (of_char d)"
    by (simp add: of_nat_of_char)
  then show ?thesis by (simp add: is_octal_def)
qed

lemma is_octal_digit: "is_octal d \<Longrightarrow> is_digit d"
  by (simp add: is_octal_def is_digit_def)

lemma is_digit_not_special:
  "is_digit d \<Longrightarrow>
     d \<noteq> BSLASH \<and> d \<noteq> CHR ''a'' \<and> d \<noteq> CHR ''r'' \<and> d \<noteq> CHR ''n'' \<and> d \<noteq> NUL"
  by (auto simp: is_digit_def)

text \<open>A string without backslashes decodes to itself.\<close>

lemma unescape_loop_plain:
  "NUL \<notin> set s \<Longrightarrow> BSLASH \<notin> set s \<Longrightarrow> unescape_loop (s @ NUL # post) = Inr (s, [])"
  by (induction s) (auto simp: emit_Inr)

lemma unescape_local_plain:
  assumes "NUL \<notin> set s" "BSLASH \<notin> set s"
  shows "unescape_local True (s @ [NUL]) = Inr (s, [])"
  using c_strlen_record [OF assms(1), of "[]"] unescape_loop_plain [OF assms, of "[]"]
  by (simp add: unescape_local_def)

text \<open>The escape sequences of the grammar, each decoded from a string that holds nothing else:
  \<open>\\\<close>, \<open>\a\<close>, \<open>\r\<close>, \<open>\n\<close>, \<open>\101\<close>, and the unknown \<open>\z\<close> with its diagnostic.\<close>

lemma unescape_local_examples:
  "unescape_local True [BSLASH, BSLASH, NUL] = Inr ([BSLASH], [])"
  "unescape_local True [BSLASH, CHR ''a'', NUL] = Inr ([CHR 0x0A], [])"
  "unescape_local True [BSLASH, CHR ''r'', NUL] = Inr ([CHR 0x0D], [])"
  "unescape_local True [BSLASH, CHR ''n'', NUL] = Inr ([CHR 0x0D, CHR 0x0A], [])"
  "unescape_local True (BSLASH # ''101'' @ [NUL]) = Inr ([CHR 0x41], [])"
  "unescape_local True [BSLASH, CHR ''z'', NUL] = Inr ([CHR ''z''], [CHR ''z''])"
  by code_simp+

lemma oct_value_nonneg:
  "0 \<le> acc \<Longrightarrow> \<forall>d\<in>set xs. is_octal d \<Longrightarrow> 0 \<le> oct_value acc xs"
proof (induction xs arbitrary: acc)
  case Nil
  then show ?case by simp
next
  case (Cons a xs)
  from Cons.prems have "(48::int) \<le> of_char a"
    by (simp add: is_octal_int)
  with Cons.prems have "0 \<le> acc * 8 + (of_char a - 48)" by simp
  with Cons show ?case by simp
qed

lemma char_of_LONG_MAX: "char_of LONG_MAX = CHR 0xFF"
  unfolding LONG_MAX_def by code_simp

text \<open>
  Claim C8, as the code has it. A backslash followed by a run \<open>ds\<close> of octal digits \<open>0\<close> to \<open>7\<close>
  that ends where \<open>rest\<close> begins, \<open>v\<close> being the base-8 value of the run: the decoder stores
  exactly one byte for the escape and goes on with \<open>rest\<close>. When \<open>v\<close> fits a \<open>long\<close> the byte is
  \<open>v mod 256\<close>, which is \<open>v\<close> itself when \<open>v\<close> is below 256; when \<open>v\<close> does not fit a \<open>long\<close>
  the byte is 0xFF, the low eight bits of \<open>LONG_MAX\<close>.
\<close>

theorem octal_escape_byte:
  assumes "ds \<noteq> []" "\<forall>d\<in>set ds. is_octal d" "rest = [] \<or> \<not> is_octal (hd rest)"
  shows "unescape_loop (BSLASH # ds @ rest)
           = emit [char_of (min (oct_value 0 ds) LONG_MAX)] [] (unescape_loop rest)
         \<and> (oct_value 0 ds \<le> LONG_MAX \<longrightarrow>
              (of_char (char_of (min (oct_value 0 ds) LONG_MAX)) :: int) = oct_value 0 ds mod 256)
         \<and> (oct_value 0 ds < 256 \<longrightarrow>
              (of_char (char_of (min (oct_value 0 ds) LONG_MAX)) :: int) = oct_value 0 ds)
         \<and> (LONG_MAX < oct_value 0 ds \<longrightarrow>
              char_of (min (oct_value 0 ds) LONG_MAX) = CHR 0xFF)"
proof -
  from assms(1) obtain d ds' where ds: "ds = d # ds'" by (cases ds) auto
  with assms(2) have d: "is_digit d" by (simp add: is_octal_digit)
  have s: "strtol8 (d # ds' @ rest) = (min (oct_value 0 ds) LONG_MAX, rest)"
    using strtol8_run [OF assms(2,3)] ds by simp
  have 1: "unescape_loop (BSLASH # ds @ rest)
             = emit [char_of (min (oct_value 0 ds) LONG_MAX)] [] (unescape_loop rest)"
    using is_digit_not_special [OF d] d s by (simp add: ds del: oct_value.simps)
  have 2: "(of_char (char_of (min (oct_value 0 ds) LONG_MAX)) :: int) = oct_value 0 ds mod 256"
    if "oct_value 0 ds \<le> LONG_MAX"
    using that by (simp add: min_def)
  have 3: "(of_char (char_of (min (oct_value 0 ds) LONG_MAX)) :: int) = oct_value 0 ds"
    if "oct_value 0 ds < 256"
  proof -
    from that have "oct_value 0 ds \<le> LONG_MAX" by (simp add: LONG_MAX_def)
    with that oct_value_nonneg [of 0 ds] assms(2) show ?thesis by (simp add: min_def)
  qed
  have 4: "char_of (min (oct_value 0 ds) LONG_MAX) = CHR 0xFF" if "LONG_MAX < oct_value 0 ds"
    using that char_of_LONG_MAX by (simp add: min_def)
  from 1 2 3 4 show ?thesis by blast
qed

theorem octal_escape_byte_witness:
  "''101'' \<noteq> [] \<and> list_all is_octal ''101'' \<and> \<not> is_octal (hd [NUL])
   \<and> unescape_loop (BSLASH # ''101'' @ [NUL]) = Inr ([CHR 0x41], [])
   \<and> oct_value 0 ''101'' = 65
   \<and> list_all is_octal ''7777777777777777777777''
   \<and> LONG_MAX < oct_value 0 ''7777777777777777777777''
   \<and> unescape_loop (BSLASH # ''7777777777777777777777'' @ [NUL]) = Inr ([CHR 0xFF], [])"
proof -
  have h: "''101'' \<noteq> []" "\<forall>d\<in>set ''101''. is_octal d" "[NUL] = [] \<or> \<not> is_octal (hd [NUL])"
    by (simp_all add: is_octal_def)
  have g: "''7777777777777777777777'' \<noteq> []" "\<forall>d\<in>set ''7777777777777777777777''. is_octal d"
    by (simp_all add: is_octal_def)
  have v: "oct_value 0 ''101'' = 65" "LONG_MAX < oct_value 0 ''7777777777777777777777''"
    by code_simp+
  have e: "emit [char_of (min (oct_value 0 ''101'') LONG_MAX)] [] (unescape_loop [NUL])
             = Inr ([CHR 0x41], [])"
    "emit [char_of (min (oct_value 0 ''7777777777777777777777'') LONG_MAX)] []
       (unescape_loop [NUL]) = Inr ([CHR 0xFF], [])"
    by code_simp+
  have 1: "unescape_loop (BSLASH # ''101'' @ [NUL]) = Inr ([CHR 0x41], [])"
    using octal_escape_byte [OF h] unfolding e by (rule conjunct1)
  have 2: "unescape_loop (BSLASH # ''7777777777777777777777'' @ [NUL]) = Inr ([CHR 0xFF], [])"
    using octal_escape_byte [OF g h(3)] unfolding e by (rule conjunct1)
  have l: "list_all is_octal ''101''" "list_all is_octal ''7777777777777777777777''"
    "\<not> is_octal (hd [NUL])"
    using h g by (simp_all add: list_all_iff)
  from 1 2 h(1) l v show ?thesis by blast
qed

text \<open>The run \<open>777\<close> has the value 511; the byte stored for \<open>\777\<close> is 255.\<close>

theorem octal_escape_777_counterexample:
  "oct_value 0 ''777'' = 511
   \<and> unescape_local True (BSLASH # ''777'' @ [NUL]) = Inr ([CHR 0xFF], [])
   \<and> (of_char (CHR 0xFF) :: int) \<noteq> oct_value 0 ''777''"
  by code_simp

subsection \<open>The escape decoder on every string\<close>

lemma emit_Inl_iff: "emit bs ws r = Inl e \<longleftrightarrow> r = Inl e"
  by (auto simp: emit_def split: sum.splits)

lemma strtol8_length: "length (snd (strtol8 p)) \<le> length p"
  by (simp add: strtol8_def length_dropWhile_le)

lemma unescape_loop_error: "unescape_loop s = Inl e \<Longrightarrow> e = Heap_overrun"
proof (induction "length s" arbitrary: s e rule: less_induct)
  case less
  have IH: "e = Heap_overrun" if "unescape_loop t = Inl e" "length t < length s" for t
    using less.hyps that by blast
  show ?case
  proof (cases s)
    case Nil
    with less.prems show ?thesis by simp
  next
    case (Cons ch cp)
    have d: "length (snd (strtol8 cp)) < length s"
      using strtol8_length [of cp] Cons by simp
    from less.prems d show ?thesis
      unfolding Cons
      by (auto simp: emit_Inl_iff Cons split: if_splits list.splits intro: IH)
  qed
qed

lemma unescape_local_error:
  "unescape_local ok s = Inl e \<Longrightarrow> e = Heap_overrun \<or> e = Panic_strdup"
  by (auto simp: unescape_local_def split: option.splits if_splits sum.splits
      dest: unescape_loop_error)

lemma lone_backslash_end_Nil [simp]: "\<not> lone_backslash_end []"
  by (simp add: lone_backslash_end_def)

lemma lone_backslash_end_single [simp]: "lone_backslash_end [BSLASH]"
  by (simp add: lone_backslash_end_def)

text \<open>A prefix that does not end in a backslash does not count.\<close>

lemma lone_backslash_end_prefix:
  assumes "pre = [] \<or> last pre \<noteq> BSLASH"
  shows "lone_backslash_end (pre @ t) = lone_backslash_end t"
proof (cases "pre = []")
  case True
  then show ?thesis by simp
next
  case False
  with assms have l: "last pre \<noteq> BSLASH" by simp
  from False have "pre = butlast pre @ [last pre]" by simp
  then have r: "rev pre = last pre # rev (butlast pre)"
    by (metis rev.simps(2) rev_append rev_rev_ident append_Cons append_Nil rev_singleton_conv)
  have "takeWhile (\<lambda>b. b = BSLASH) (rev t @ rev pre) = takeWhile (\<lambda>b. b = BSLASH) (rev t)"
    unfolding r using l by (rule takeWhile_tail)
  then show ?thesis by (simp add: lone_backslash_end_def)
qed

text \<open>A suffix with a byte other than a backslash decides alone.\<close>

lemma lone_backslash_end_suffix:
  assumes "x \<in> set t" "x \<noteq> BSLASH"
  shows "lone_backslash_end (pre @ t) = lone_backslash_end t"
proof -
  from assms have "x \<in> set (rev t)" by simp
  with assms(2) have "takeWhile (\<lambda>b. b = BSLASH) (rev t @ rev pre) = takeWhile (\<lambda>b. b = BSLASH) (rev t)"
    by (simp add: takeWhile_append1)
  then show ?thesis by (simp add: lone_backslash_end_def)
qed

lemma lone_backslash_end_pair:
  "lone_backslash_end (BSLASH # BSLASH # t) = lone_backslash_end t"
proof (cases "\<forall>x\<in>set t. x = BSLASH")
  case True
  have a: "takeWhile (\<lambda>b. b = BSLASH) (rev (BSLASH # BSLASH # t)) = rev (BSLASH # BSLASH # t)"
    using True by simp
  have b: "takeWhile (\<lambda>b. b = BSLASH) (rev t) = rev t"
    using True by simp
  show ?thesis
    unfolding lone_backslash_end_def a b by simp
next
  case False
  then obtain x where "x \<in> set t" "x \<noteq> BSLASH" by blast
  from lone_backslash_end_suffix [OF this, of "[BSLASH, BSLASH]"] show ?thesis by simp
qed

lemma unescape_loop_length:
  "unescape_loop t = Inr (out, warns) \<Longrightarrow> length out < length t"
proof (induction "length t" arbitrary: t out warns rule: less_induct)
  case less
  have IH: "length out' < length t'"
    if "unescape_loop t' = Inr (out', warns')" "length t' < length t" for t' out' warns'
    using less.hyps that by blast
  show ?case
  proof (cases t)
    case Nil
    with less.prems show ?thesis by simp
  next
    case (Cons ch cp)
    have d: "length (snd (strtol8 cp)) \<le> length cp"
      by (rule strtol8_length)
    have e: "(emit bs ws r = Inr (out, warns)) =
        (\<exists>out' warns'. r = Inr (out', warns') \<and> out = bs @ out' \<and> warns = ws @ warns')"
      for bs ws r
      by (auto simp: emit_def split: sum.splits)
    from less.prems show ?thesis
      unfolding Cons
      apply (simp add: e split: if_splits list.splits)
      using IH d Cons
            apply (fastforce simp: Cons)+
      done
  qed
qed

lemma emit_Inr_ex:
  "\<exists>out warns. r = Inr (out, warns) \<Longrightarrow> \<exists>out warns. emit bs ws r = Inr (out, warns)"
  by (auto simp: emit_def)

lemma not_octal_NUL: "\<not> is_octal NUL"
  by (simp add: is_octal_def)

lemma is_octal_not_backslash: "is_octal d \<Longrightarrow> d \<noteq> BSLASH"
  by (auto simp: is_octal_def)

lemma unescape_loop_cases:
  "NUL \<notin> set s \<Longrightarrow>
     (if lone_backslash_end s then unescape_loop (s @ [NUL]) = Inl Heap_overrun
      else \<exists>out warns. unescape_loop (s @ [NUL]) = Inr (out, warns))"
proof (induction "length s" arbitrary: s rule: less_induct)
  case less
  define Q :: "char list \<Rightarrow> error + decoded \<Rightarrow> bool" where
    "Q = (\<lambda>t r. if lone_backslash_end t then r = Inl Heap_overrun
                 else \<exists>out warns. r = Inr (out, warns))"
  have IH: "Q t (unescape_loop (t @ [NUL]))" if "length t < length s" "NUL \<notin> set t" for t
    using less.hyps [OF that] by (simp add: Q_def)
  have step: "Q s (emit bs ws (unescape_loop (t @ [NUL])))"
    if "length t < length s" "NUL \<notin> set t" "lone_backslash_end s = lone_backslash_end t" for bs ws t
    using IH [OF that(1,2)] that(3) by (auto simp: Q_def emit_def)
  have "Q s (unescape_loop (s @ [NUL]))"
  proof (cases s)
    case Nil
    then show ?thesis by (simp add: Q_def)
  next
    case (Cons ch cp)
    with less.prems have ch: "ch \<noteq> NUL" and cp: "NUL \<notin> set cp" by auto
    show ?thesis
    proof (cases "ch = BSLASH")
      case False
      have "lone_backslash_end s = lone_backslash_end cp"
        using lone_backslash_end_prefix [of "[ch]" cp] False by (simp add: Cons)
      from step [OF _ cp this, of "[ch]" "[]"] show ?thesis
        using ch False by (simp add: Cons)
    next
      case True
      show ?thesis
      proof (cases cp)
        case Nil
        then show ?thesis
          by (simp add: Q_def Cons True emit_def is_digit_def)
      next
        case (Cons e cp')
        with cp have e: "e \<noteq> NUL" and cp': "NUL \<notin> set cp'" by auto
        have s: "s = BSLASH # e # cp'" using \<open>s = ch # cp\<close> True Cons by simp
        show ?thesis
        proof (cases "e = BSLASH")
          case True
          have "lone_backslash_end s = lone_backslash_end cp'"
            unfolding s True by (rule lone_backslash_end_pair)
          from step [OF _ cp' this, of "[BSLASH]" "[]"] show ?thesis
            by (simp add: s True)
        next
          case False
          have l: "lone_backslash_end s = lone_backslash_end cp'"
            using lone_backslash_end_prefix [of "[BSLASH, e]" cp'] False by (simp add: s)
          show ?thesis
          proof (cases "is_digit e")
            case d: False
            from step [OF _ cp' l, of "[e]" "[e]"] step [OF _ cp' l, of "[CHR 0x0A]" "[]"]
              step [OF _ cp' l, of "[CHR 0x0D]" "[]"] step [OF _ cp' l, of "[CHR 0x0D, CHR 0x0A]" "[]"]
            show ?thesis
              using False d by (auto simp: s)
          next
            case d: True
            define t where "t = dropWhile is_octal (e # cp')"
            have sn: "snd (strtol8 (e # cp' @ [NUL])) = t @ [NUL]"
              using dropWhile_append3 [of is_octal NUL "e # cp'" "[]"] not_octal_NUL
              by (simp add: strtol8_def t_def del: dropWhile.simps)
            have tl: "length t < length s"
              using length_dropWhile_le [of is_octal "e # cp'"] by (simp add: t_def s del: dropWhile.simps)
            have tn: "NUL \<notin> set t"
              using e cp' set_dropWhileD [of NUL is_octal "e # cp'"] unfolding t_def by auto
            have lt: "lone_backslash_end s = lone_backslash_end t"
            proof (cases "is_octal e")
              case o: True
              define ds where "ds = takeWhile is_octal (e # cp')"
              have dne: "ds \<noteq> []" using o by (simp add: ds_def)
              then have "last ds \<in> set ds" by simp
              then have "is_octal (last ds)" unfolding ds_def by (auto dest: set_takeWhileD)
              then have "last (BSLASH # ds) \<noteq> BSLASH"
                using dne by (simp add: is_octal_not_backslash)
              from lone_backslash_end_prefix [of "BSLASH # ds" t] this
              have "lone_backslash_end ((BSLASH # ds) @ t) = lone_backslash_end t" by simp
              moreover have "(BSLASH # ds) @ t = s"
                unfolding ds_def t_def s by simp
              ultimately show ?thesis by simp
            next
              case o: False
              then have "t = e # cp'" by (simp add: t_def)
              with lone_backslash_end_suffix [of e t "[BSLASH]"] False show ?thesis
                by (simp add: s)
            qed
            from step [OF tl tn lt, of "[char_of (fst (strtol8 (e # cp' @ [NUL])))]" "[]"]
            show ?thesis
              using is_digit_not_special [OF d] d by (simp add: s sn del: dropWhile.simps)
          qed
        qed
      qed
    qed
  qed
  then show ?case by (simp add: Q_def)
qed

lemma unescape_local_cases:
  assumes "NUL \<notin> set s"
  shows "if lone_backslash_end s then unescape_local True (s @ [NUL]) = Inl Heap_overrun
         else \<exists>out warns. unescape_local True (s @ [NUL]) = Inr (out, warns)"
proof -
  have n: "c_strlen (s @ [NUL]) = Some (length s)"
    using c_strlen_record [OF assms, of "[]"] by simp
  show ?thesis
  proof (cases "lone_backslash_end s")
    case True
    with unescape_loop_cases [OF assms] show ?thesis
      by (simp add: unescape_local_def n)
  next
    case False
    with unescape_loop_cases [OF assms] obtain out warns where
      r: "unescape_loop (s @ [NUL]) = Inr (out, warns)" by auto
    from unescape_loop_length [OF r] have "\<not> length s + 1 < length out" by simp
    with r False show ?thesis
      by (simp add: unescape_local_def n)
  qed
qed

text \<open>When \<open>strdup\<close> succeeds, the decoder returns a result for every NUL-terminated string that
  does not end in a lone backslash. \<open>\\\<close> decodes to one backslash, \<open>\a\<close> to 0x0A, \<open>\r\<close> to
  0x0D, \<open>\n\<close> to the two bytes 0x0D 0x0A, \<open>\101\<close> to the byte 0x41, and a backslash followed
  by a character outside the grammar, such as \<open>\z\<close>, passes that character through and reports
  it in a diagnostic; decoding goes on behind it.\<close>

lemma unescape_local_total:
  assumes "NUL \<notin> set s" "\<not> lone_backslash_end s"
  shows "(\<exists>out warns. unescape_local True (s @ [NUL]) = Inr (out, warns))
         \<and> unescape_local True [BSLASH, BSLASH, NUL] = Inr ([BSLASH], [])
         \<and> unescape_local True [BSLASH, CHR ''a'', NUL] = Inr ([CHR 0x0A], [])
         \<and> unescape_local True [BSLASH, CHR ''r'', NUL] = Inr ([CHR 0x0D], [])
         \<and> unescape_local True [BSLASH, CHR ''n'', NUL] = Inr ([CHR 0x0D, CHR 0x0A], [])
         \<and> unescape_local True (BSLASH # ''101'' @ [NUL]) = Inr ([CHR 0x41], [])
         \<and> unescape_local True [BSLASH, CHR ''z'', NUL] = Inr ([CHR ''z''], [CHR ''z''])
         \<and> (\<forall>e rest. e \<noteq> NUL \<and> e \<noteq> BSLASH \<and> e \<noteq> CHR ''a'' \<and> e \<noteq> CHR ''r'' \<and> e \<noteq> CHR ''n''
                 \<and> \<not> is_digit e \<longrightarrow>
               unescape_loop (BSLASH # e # rest) = emit [e] [e] (unescape_loop rest))"
proof -
  have 1: "\<exists>out warns. unescape_local True (s @ [NUL]) = Inr (out, warns)"
    using unescape_local_cases [OF assms(1)] assms(2) by simp
  have 2: "unescape_loop (BSLASH # e # rest) = emit [e] [e] (unescape_loop rest)"
    if "e \<noteq> NUL \<and> e \<noteq> BSLASH \<and> e \<noteq> CHR ''a'' \<and> e \<noteq> CHR ''r'' \<and> e \<noteq> CHR ''n'' \<and> \<not> is_digit e"
    for e rest
    using that by simp
  from 1 2 unescape_local_examples show ?thesis by blast
qed

lemma unescape_local_total_example:
  "NUL \<notin> set (''X-Tag: a'' @ [BSLASH] @ ''z'' @ [BSLASH, BSLASH])
   \<and> \<not> lone_backslash_end (''X-Tag: a'' @ [BSLASH] @ ''z'' @ [BSLASH, BSLASH])
   \<and> unescape_local True (''X-Tag: a'' @ [BSLASH] @ ''z'' @ [BSLASH, BSLASH] @ [NUL])
       = Inr (''X-Tag: az'' @ [BSLASH], ''z'')"
proof -
  have h: "NUL \<notin> set (''X-Tag: a'' @ [BSLASH] @ ''z'' @ [BSLASH, BSLASH])"
    "\<not> lone_backslash_end (''X-Tag: a'' @ [BSLASH] @ ''z'' @ [BSLASH, BSLASH])"
    by (simp_all add: lone_backslash_end_def)
  have e: "unescape_local True (''X-Tag: a'' @ [BSLASH] @ ''z'' @ [BSLASH, BSLASH] @ [NUL])
       = Inr (''X-Tag: az'' @ [BSLASH], ''z'')"
    by code_simp
  from unescape_local_total [OF h] h e show ?thesis by simp
qed

text \<open>When \<open>strdup\<close> returns \<open>NULL\<close> the decoder panics, on any string.\<close>

lemma unescape_local_strdup_panics:
  "unescape_local False (''a'' @ [NUL]) = Inl Panic_strdup"
  by code_simp

text \<open>
  Claim C9. A string that ends in a lone backslash: the decoder takes the terminating NUL for the
  escaped character, stores it, and goes on reading behind the terminator, outside the block
  that holds the string. This happens for every NUL-terminated string that ends in a lone
  backslash.
\<close>

theorem unescape_local_lone_backslash_overrun:
  assumes "NUL \<notin> set s" "lone_backslash_end s"
  shows "unescape_local True (s @ [NUL]) = Inl Heap_overrun"
  using unescape_local_cases [OF assms(1)] assms(2) by simp

theorem unescape_local_lone_backslash_overrun_witness:
  "NUL \<notin> set (''X-Tag: a'' @ [BSLASH]) \<and> lone_backslash_end (''X-Tag: a'' @ [BSLASH])
   \<and> unescape_local True (''X-Tag: a'' @ [BSLASH, NUL]) = Inl Heap_overrun"
proof -
  have h: "NUL \<notin> set (''X-Tag: a'' @ [BSLASH])" "lone_backslash_end (''X-Tag: a'' @ [BSLASH])"
    by (simp_all add: lone_backslash_end_def)
  from unescape_local_lone_backslash_overrun [OF h] h show ?thesis by simp
qed

subsection \<open>One pass of the loop body\<close>

lemma hdr_scan_found:
  "NUL \<notin> set h \<Longrightarrow> CTRL_A \<notin> set h \<Longrightarrow> 0 \<le> n \<Longrightarrow> n + int (length h) \<le> INT_MAX \<Longrightarrow>
     hdr_scan (h @ CTRL_A # t) n = Inr (True, n + int (length h))"
proof (induction h arbitrary: n)
  case Nil
  then show ?case by simp
next
  case (Cons a h)
  from Cons.prems have "c_int (n + 1) = Inr (n + 1)"
    by (intro c_int_small) simp_all
  moreover from Cons.prems have "hdr_scan (h @ CTRL_A # t) (n + 1) = Inr (True, n + 1 + int (length h))"
    by (intro Cons.IH) simp_all
  ultimately show ?case using Cons.prems by auto
qed

lemma split_at_ctrl_a:
  assumes "CTRL_A \<in> set r"
  shows "r = takeWhile (\<lambda>b. b \<noteq> CTRL_A) r @ CTRL_A # tl (dropWhile (\<lambda>b. b \<noteq> CTRL_A) r)"
proof -
  from assms have "dropWhile (\<lambda>b. b \<noteq> CTRL_A) r \<noteq> []" by (simp add: dropWhile_eq_Nil_conv)
  moreover then have "hd (dropWhile (\<lambda>b. b \<noteq> CTRL_A) r) = CTRL_A"
    using hd_dropWhile [of "\<lambda>b. b \<noteq> CTRL_A" r] by simp
  ultimately have "dropWhile (\<lambda>b. b \<noteq> CTRL_A) r = CTRL_A # tl (dropWhile (\<lambda>b. b \<noteq> CTRL_A) r)"
    by (cases "dropWhile (\<lambda>b. b \<noteq> CTRL_A) r") auto
  then show ?thesis
    using takeWhile_dropWhile_id [of "\<lambda>b. b \<noteq> CTRL_A" r] by simp
qed

lemma embedded_headers_split:
  assumes m: "bytes_at w uri = h @ CTRL_A # t @ NUL # post"
    and h: "NUL \<notin> set h" "CTRL_A \<notin> set h" and p: "use_embedded_http_headers p"
    and n: "n = length h + 1 + length t" and b: "int n \<le> INT_MAX"
  shows "embedded_headers p w uri (int n) c =
     (if \<not> heap_ok w then Inl Null_pointer
      else (case unescape_local (heap_ok w) (h @ [NUL]) of
              Inl e \<Rightarrow> Inl e
            | Inr (escaped, warns) \<Rightarrow>
                Inr (uri + int (length h) + 1, int (length t),
                     w\<lparr>stderr_warn := stderr_warn w @ warns\<rparr>,
                     call_append_request_header c escaped)))"
proof -
  have hb: "int (length h) \<le> INT_MAX" "int (length h) + 1 \<le> INT_MAX" "int (length t) \<le> INT_MAX"
    using n b by simp_all
  have 0: "to_size_t (int n) = n" "to_size_t (int (length h)) = length h"
    using b hb by (simp_all add: to_size_t_small)
  have 1: "c_memchr (bytes_at w uri) CTRL_A (to_size_t (int n)) = Some (Some (length h))"
    unfolding m 0 using h(2) n by (intro c_memchr_some) auto
  have 2: "hdr_scan (bytes_at w uri) 0 = Inr (True, int (length h))"
    unfolding m using hdr_scan_found [OF h, of 0 "t @ NUL # post"] hb by simp
  have 3: "header_block (bytes_at w uri) (int (length h)) = h @ [NUL]"
    unfolding m by (simp add: header_block_def 0)
  have 4: "c_int (int (length h) + 1) = Inr (int (length h) + 1)"
    using hb by (intro c_int_small) simp_all
  have 5: "c_int (int n - (int (length h) + 1)) = Inr (int (length t))"
    using n hb c_int_small [of "int (length t)"] by simp
  show ?thesis
    using p by (simp add: embedded_headers_def 1 2 3 4 5 split: sum.splits)
qed

lemma embedded_headers_none:
  assumes "use_embedded_http_headers p \<longrightarrow> CTRL_A \<notin> set (take n (bytes_at w uri))"
    and "n \<le> length (bytes_at w uri)" "int n \<le> INT_MAX"
  shows "embedded_headers p w uri (int n) c = Inr (uri, int n, w, c)"
  using assms by (auto simp: embedded_headers_def c_memchr_none to_size_t_small)

text \<open>What one pass does with the record \<open>r\<close> at the cursor, a record of fewer than \<open>INT_MAX\<close>
  bytes: the view \<^const>\<open>pass_record\<close> is what the code computes. The wrap-around block has
  run and left the memory, the cursor's record and the allocator as they were (\<open>nw\<close>).\<close>

lemma read_record:
  assumes m: "bytes_at w (fcurrent w) = r @ NUL # post" and r: "NUL \<notin> set r"
    and b: "int (length r) < INT_MAX"
    and nw: "wrap_around p dw w = Inr (dw1, w1)" "mem w1 = mem w" "fcurrent w1 = fcurrent w"
      "heap_ok w1 = heap_ok w"
  shows "set_uri_body p dw w c =
     (case pass_record p (heap_ok w) r c of
        Inl e \<Rightarrow> Inl e
      | Inr (len, warns, c') \<Rightarrow>
          Inr (len, dw1,
               w1\<lparr>stderr_warn := stderr_warn w1 @ warns,
                  fcurrent := fcurrent w + int (length r) + 1\<rparr>, c'))"
proof -
  have "bytes_at w1 (fcurrent w1) = bytes_at w (fcurrent w)"
    by (simp add: bytes_at_def nw)
  with m have m1: "bytes_at w1 (fcurrent w1) = r @ NUL # post"
    by simp
  have nn: "0 \<le> fcurrent w1"
    using m1 by (intro bytes_at_nonneg [of w1]) simp
  have len: "c_strlen (bytes_at w1 (fcurrent w1)) = Some (length r)"
    unfolding m1 using r by (rule c_strlen_record)
  have ti: "to_int (int (length r)) = int (length r)"
    using b by (intro to_int_small) simp_all
  have st: "c_int (int (length r) + 1) = Inr (int (length r) + 1)"
    using b by (intro c_int_small) simp_all
  have body: "set_uri_body p dw w c =
     (case embedded_headers p w1 (fcurrent w1) (int (length r)) c of
        Inl e \<Rightarrow> Inl e
      | Inr (uri, len, w2, c2) \<Rightarrow>
          Inr (len, dw1, w2\<lparr>fcurrent := fcurrent w1 + (int (length r) + 1)\<rparr>,
               call_set_uri c2 (take (to_size_t len) (bytes_at w1 uri))))"
    by (simp add: set_uri_body_def nw(1) len ti st split: sum.splits)
  show ?thesis
  proof (cases "use_embedded_http_headers p \<and> CTRL_A \<in> set r")
    case True
    define h where "h = takeWhile (\<lambda>b. b \<noteq> CTRL_A) r"
    define t where "t = tl (dropWhile (\<lambda>b. b \<noteq> CTRL_A) r)"
    have rs: "r = h @ CTRL_A # t"
      unfolding h_def t_def using True by (intro split_at_ctrl_a) simp
    have h: "NUL \<notin> set h" "CTRL_A \<notin> set h"
    proof -
      show "NUL \<notin> set h" using r rs by auto
      show "CTRL_A \<notin> set h" unfolding h_def using set_takeWhileD by fastforce
    qed
    have m2: "bytes_at w1 (fcurrent w1) = h @ CTRL_A # t @ NUL # post"
      using m1 rs by simp
    have lr: "length r = length h + 1 + length t"
      by (subst rs) simp
    have lb: "int (length r) \<le> INT_MAX" using b by simp
    have tb: "to_size_t (int (length t)) = length t"
      using lr b by (intro to_size_t_small [THEN trans]) simp_all
    have eh: "embedded_headers p w1 (fcurrent w1) (int (length r)) c =
       (if \<not> heap_ok w1 then Inl Null_pointer
        else (case unescape_local (heap_ok w1) (h @ [NUL]) of
                Inl e \<Rightarrow> Inl e
              | Inr (escaped, warns) \<Rightarrow>
                  Inr (fcurrent w1 + int (length h) + 1, int (length t),
                       w1\<lparr>stderr_warn := stderr_warn w1 @ warns\<rparr>,
                       call_append_request_header c escaped)))"
      using True by (intro embedded_headers_split [OF m2 h _ lr lb]) simp
    have pr: "pass_record p (heap_ok w) r c =
       (if \<not> heap_ok w1 then Inl Null_pointer
        else (case unescape_local (heap_ok w1) (h @ [NUL]) of
                Inl e \<Rightarrow> Inl e
              | Inr (escaped, warns) \<Rightarrow>
                  Inr (int (length t), warns,
                       call_set_uri (call_append_request_header c escaped) t)))"
      unfolding pass_record_def h_def [symmetric] t_def [symmetric] nw(4)
      using True lr by (auto split: sum.splits)
    have tk: "take (to_size_t (int (length t))) (bytes_at w1 (fcurrent w1 + int (length h) + 1)) = t"
    proof -
      have "bytes_at w1 (fcurrent w1 + int (length h + 1)) = drop (length h + 1) (bytes_at w1 (fcurrent w1))"
        using nn by (rule bytes_at_add)
      also have "\<dots> = t @ NUL # post"
        unfolding m2 by simp
      finally have "bytes_at w1 (fcurrent w1 + int (length h) + 1) = t @ NUL # post"
        by (simp add: ac_simps)
      then show ?thesis by (simp add: tb)
    qed
    show ?thesis
      unfolding body eh pr using tk nw(3)
      by (auto split: sum.splits)
  next
    case False
    have e: "embedded_headers p w1 (fcurrent w1) (int (length r)) c =
        Inr (fcurrent w1, int (length r), w1, c)"
      using False m1 b by (intro embedded_headers_none) simp_all
    have tb: "to_size_t (int (length r)) = length r"
      using b by (intro to_size_t_small [THEN trans]) simp_all
    have pr: "pass_record p (heap_ok w) r c = Inr (int (length r), [], call_set_uri c r)"
      using False by (auto simp: pass_record_def)
    show ?thesis
      unfolding body e pr using m1 nw(3) by (simp add: tb)
  qed
qed

subsection \<open>The loop, record by record\<close>

declare set_uri_loop.simps [simp del]

lemma wlog_buffer_Nil [simp]: "wlog_buffer [] = []"
  by (simp add: wlog_buffer_def)

lemma wlog_buffer_Cons [simp]: "wlog_buffer (r # rs) = r @ NUL # wlog_buffer rs"
  by (simp add: wlog_buffer_def)

lemma wlog_buffer_append: "wlog_buffer (xs @ ys) = wlog_buffer xs @ wlog_buffer ys"
  by (simp add: wlog_buffer_def)

lemma wrap_around_not_yet: "fcurrent w < fend w \<Longrightarrow> wrap_around p dw w = Inr (dw, w)"
  by (simp add: wrap_around_def)

lemma loop_scan:
  assumes "bytes_at w (fcurrent w) = wlog_buffer todo @ behind"
    and "fend w = fcurrent w + int (length (wlog_buffer todo))"
    and "0 \<le> fcurrent w"
    and "\<forall>r\<in>set todo. NUL \<notin> set r \<and> int (length r) < INT_MAX"
  shows "set_uri_loop p dw w c =
     (case scan_records p (heap_ok w) todo c of
        Inl e \<Rightarrow> Inl e
      | Inr (produced, k, warns, c') \<Rightarrow>
          if produced
          then Inr (w\<lparr>stderr_warn := stderr_warn w @ warns,
                      fcurrent := fcurrent w + int (length (wlog_buffer (take k todo)))\<rparr>, c')
          else set_uri_loop p dw (w\<lparr>stderr_warn := stderr_warn w @ warns, fcurrent := fend w\<rparr>) c')"
  using assms
proof (induction todo arbitrary: w c)
  case Nil
  then have "w\<lparr>stderr_warn := stderr_warn w, fcurrent := fend w\<rparr> = w" by simp
  then show ?case by simp
next
  case (Cons r todo)
  have m: "bytes_at w (fcurrent w) = r @ NUL # (wlog_buffer todo @ behind)"
    using Cons.prems(1) by simp
  have r: "NUL \<notin> set r" "int (length r) < INT_MAX" using Cons.prems(4) by simp_all
  have lt: "fcurrent w < fend w" using Cons.prems(2) by simp
  note body = read_record [where c = c, OF m r wrap_around_not_yet [OF lt] refl refl refl]
  show ?case
  proof (cases "pass_record p (heap_ok w) r c")
    case (Inl e)
    then show ?thesis
      by (subst set_uri_loop.simps) (simp add: body)
  next
    case (Inr x)
    then obtain len warns c' where x: "pass_record p (heap_ok w) r c = Inr (len, warns, c')"
      by (cases x) auto
    define w' where "w' = w\<lparr>stderr_warn := stderr_warn w @ warns,
                            fcurrent := fcurrent w + int (length r) + 1\<rparr>"
    have b: "set_uri_body p dw w c = Inr (len, dw, w', c')"
      by (simp add: body x w'_def)
    show ?thesis
    proof (cases "len = 0")
      case True
      have fc: "fcurrent w' = fcurrent w + int (length r + 1)"
        by (simp add: w'_def)
      have 1: "bytes_at w' (fcurrent w') = wlog_buffer todo @ behind"
      proof -
        have "bytes_at w' (fcurrent w') = bytes_at w (fcurrent w + int (length r + 1))"
          unfolding fc by (simp add: bytes_at_def w'_def)
        also have "\<dots> = drop (length r + 1) (bytes_at w (fcurrent w))"
          using Cons.prems(3) by (rule bytes_at_add)
        also have "\<dots> = wlog_buffer todo @ behind"
          unfolding m by simp
        finally show ?thesis .
      qed
      have 2: "fend w' = fcurrent w' + int (length (wlog_buffer todo))"
        using Cons.prems(2) by (simp add: w'_def)
      have 3: "0 \<le> fcurrent w'"
        using Cons.prems(3) by (simp add: w'_def)
      have 4: "\<forall>r\<in>set todo. NUL \<notin> set r \<and> int (length r) < INT_MAX"
        using Cons.prems(4) by simp
      have l: "set_uri_loop p dw w c = set_uri_loop p dw w' c'"
        by (subst set_uri_loop.simps) (simp add: b True)
      show ?thesis
        unfolding l Cons.IH [OF 1 2 3 4]
        by (simp add: x True w'_def split: sum.splits)
    next
      case False
      have l: "set_uri_loop p dw w c = Inr (w', c')"
        by (subst set_uri_loop.simps) (simp add: b False)
      show ?thesis
        unfolding l by (simp add: x False w'_def)
    qed
  qed
qed

lemma loop_end_wrapped:
  "fend w \<le> fcurrent w \<Longrightarrow> set_uri_loop p True w c = Inl Panic_no_valid_URIs"
  by (subst set_uri_loop.simps) (simp add: set_uri_body_def wrap_around_def)

lemma loop_end_wrap:
  assumes "fend w \<le> fcurrent w" "0 < fend w"
  shows "set_uri_loop p False w c = set_uri_loop p True (wrapped_world p w) c"
proof -
  have 1: "wrap_around p False w = Inr (True, wrapped_world p w)"
    using assms by (simp add: wrap_around_def wrapped_world_def)
  have 2: "wrap_around p True (wrapped_world p w) = Inr (True, wrapped_world p w)"
    using assms by (simp add: wrap_around_def wrapped_world_def core_exit_def)
  have "set_uri_body p False w c = set_uri_body p True (wrapped_world p w) c"
    by (simp add: set_uri_body_def 1 2)
  then show ?thesis
    by (subst (1 2) set_uri_loop.simps) simp
qed

lemma at_record_drop:
  assumes "at_record done todo w"
  shows "bytes_at w (fcurrent w) = wlog_buffer todo @ drop (nat (fend w)) (mem w)"
    and "fend w = fcurrent w + int (length (wlog_buffer todo))"
    and "mem w = wlog_buffer (done @ todo) @ drop (nat (fend w)) (mem w)"
    and "0 \<le> fcurrent w"
proof -
  from assms have t: "take (nat (fend w)) (mem w) = wlog_buffer (done @ todo)"
    and c: "fcurrent w = int (length (wlog_buffer done))"
    and e: "fend w = int (length (wlog_buffer (done @ todo)))"
    unfolding at_record_def by blast+
  have "take (nat (fend w)) (mem w) @ drop (nat (fend w)) (mem w) = mem w" by simp
  then show m: "mem w = wlog_buffer (done @ todo) @ drop (nat (fend w)) (mem w)"
    unfolding t by simp
  have "drop (length (wlog_buffer done)) (wlog_buffer (done @ todo) @ drop (nat (fend w)) (mem w))
          = wlog_buffer todo @ drop (nat (fend w)) (mem w)"
    by (simp add: wlog_buffer_append)
  then show "bytes_at w (fcurrent w) = wlog_buffer todo @ drop (nat (fend w)) (mem w)"
    unfolding c bytes_at_def using m by simp
  show "fend w = fcurrent w + int (length (wlog_buffer todo))"
    unfolding c e by (simp add: wlog_buffer_append)
  show "0 \<le> fcurrent w" unfolding c by simp
qed

lemma wlog_buffer_nonempty: "rs \<noteq> [] \<Longrightarrow> 0 < length (wlog_buffer rs)"
  by (cases rs) auto

lemma set_uri_next_uri:
  assumes at: "at_record done todo w"
    and nul: "\<forall>r\<in>set (done @ todo). NUL \<notin> set r \<and> int (length r) < INT_MAX"
    and ne: "done @ todo \<noteq> []"
  shows "set_uri p w c =
     (case next_uri p (heap_ok w) (done @ todo) todo c of
        Inl e \<Rightarrow> Inl e
      | Inr (wrapped, k, warns, c') \<Rightarrow>
          Inr ((if wrapped then wrapped_world p w else w)
                 \<lparr>stderr_warn := stderr_warn w @ warns,
                  fcurrent := int (length (wlog_buffer (if wrapped then take k (done @ todo)
                                                        else done @ take k todo)))\<rparr>, c'))"
proof -
  note d = at_record_drop [OF at]
  have nul': "\<forall>r\<in>set todo. NUL \<notin> set r \<and> int (length r) < INT_MAX" using nul by simp
  note first = loop_scan [OF d(1) d(2) d(4) nul', of p False c]
  show ?thesis
  proof (cases "scan_records p (heap_ok w) todo c")
    case (Inl e)
    then show ?thesis by (simp add: set_uri_def first next_uri_def)
  next
    case (Inr x)
    then obtain produced k warns c' where
      x: "scan_records p (heap_ok w) todo c = Inr (produced, k, warns, c')"
      by (cases x) auto
    show ?thesis
    proof (cases produced)
      case True
      then show ?thesis
        using at by (simp add: set_uri_def first next_uri_def x at_record_def wlog_buffer_append)
    next
      case False
      define w1 where "w1 = w\<lparr>stderr_warn := stderr_warn w @ warns, fcurrent := fend w\<rparr>"
      define w2 where "w2 = wrapped_world p w1"
      have l1: "set_uri p w c = set_uri_loop p True w2 c'"
      proof -
        have "set_uri p w c = set_uri_loop p False w1 c'"
          by (simp add: set_uri_def first x False w1_def)
        also have "\<dots> = set_uri_loop p True w2 c'"
          unfolding w2_def using at wlog_buffer_nonempty [OF ne]
          by (intro loop_end_wrap) (simp_all add: w1_def at_record_def)
        finally show ?thesis .
      qed
      have m2: "bytes_at w2 (fcurrent w2) = wlog_buffer (done @ todo) @ drop (nat (fend w)) (mem w)"
        using d(3) by (simp add: w2_def w1_def wrapped_world_def core_exit_def bytes_at_def)
      have f2: "fend w2 = fcurrent w2 + int (length (wlog_buffer (done @ todo)))"
        using at by (simp add: w2_def w1_def wrapped_world_def core_exit_def at_record_def)
      have h2: "heap_ok w2 = heap_ok w"
        by (simp add: w2_def w1_def wrapped_world_def core_exit_def)
      have c2: "0 \<le> fcurrent w2"
        by (simp add: w2_def w1_def wrapped_world_def core_exit_def)
      note second = loop_scan [OF m2 f2 c2 nul, of p True c', unfolded h2]
      show ?thesis
      proof (cases "scan_records p (heap_ok w) (done @ todo) c'")
        case (Inl e)
        then have "set_uri_loop p True w2 c' = Inl e"
          by (simp add: second)
        then show ?thesis
          unfolding l1 by (simp add: next_uri_def x False Inl)
      next
        case (Inr y)
        then obtain produced2 k2 warns2 c2 where
          y: "scan_records p (heap_ok w) (done @ todo) c' = Inr (produced2, k2, warns2, c2)"
          by (cases y) auto
        show ?thesis
        proof (cases produced2)
          case True
          have "set_uri_loop p True w2 c' =
                  Inr (w2\<lparr>stderr_warn := stderr_warn w2 @ warns2,
                          fcurrent := fcurrent w2 + int (length (wlog_buffer (take k2 (done @ todo))))\<rparr>, c2)"
            by (simp add: second y True)
          then show ?thesis
            unfolding l1
            by (simp add: next_uri_def x False y True w2_def w1_def wrapped_world_def
                core_exit_def)
        next
          case p2: False
          have "set_uri_loop p True (w2\<lparr>stderr_warn := stderr_warn w2 @ warns2, fcurrent := fend w2\<rparr>) c2
                  = Inl Panic_no_valid_URIs"
            by (intro loop_end_wrapped) simp
          then have "set_uri_loop p True w2 c' = Inl Panic_no_valid_URIs"
            by (simp add: second y p2)
          then show ?thesis
            unfolding l1 by (simp add: next_uri_def x False y p2)
        qed
      qed
    qed
  qed
qed

subsection \<open>A record that is too long for an \<open>int\<close>\<close>

text \<open>A cursor in front of \<open>fbase\<close>: the next call reads outside the mapping.\<close>

lemma set_uri_before_fbase:
  assumes "fcurrent w < 0" "0 \<le> fend w"
  shows "set_uri p w c = Inl Wlog_overrun"
proof -
  from assms have "wrap_around p False w = Inr (False, w)"
    by (simp add: wrap_around_def)
  moreover from assms have "c_strlen (bytes_at w (fcurrent w)) = None"
    by (simp add: bytes_at_def)
  ultimately have "set_uri_body p False w c = Inl Wlog_overrun"
    by (simp add: set_uri_body_def)
  then show ?thesis
    unfolding set_uri_def by (subst set_uri_loop.simps) simp
qed

text \<open>The record of \<open>2^31\<close> bytes at the cursor, with the embedded headers disabled: \<open>len\<close>
  is \<open>INT_MIN\<close> and the cursor goes \<open>2^31 - 1\<close> bytes back. At the head of a log that is in
  front of \<open>fbase\<close>, and the next call reads there.\<close>

lemma long_record_props:
  "NUL \<notin> set long_record" "CTRL_A \<notin> set long_record" "length long_record = 2147483648"
  by (simp_all add: long_record_def)

lemma read_long_record:
  assumes m: "bytes_at w (fcurrent w) = long_record @ NUL # post"
    and lt: "fcurrent w < fend w" and p: "\<not> use_embedded_http_headers p"
  shows "set_uri_body p dw w c =
      Inr (- 2147483648, dw, w\<lparr>fcurrent := fcurrent w - 2147483647\<rparr>,
           call_set_uri c (take (to_size_t (- 2147483648)) (long_record @ NUL # post)))"
proof -
  have s: "c_strlen (bytes_at w (fcurrent w)) = Some 2147483648"
    unfolding m using c_strlen_record [OF long_record_props(1), of post]
    by (simp add: long_record_props)
  have wa: "wrap_around p dw w = Inr (dw, w)"
    using lt by (simp add: wrap_around_def)
  have ti: "to_int 2147483648 = - 2147483648"
    by (simp add: to_int_def)
  have eh: "embedded_headers p w x len c = Inr (x, len, w, c)" for x len
    using p by (simp add: embedded_headers_def)
  have ci: "c_int (- 2147483647) = Inr (- 2147483647)"
    by (simp add: c_int_def INT_MIN_def INT_MAX_def)
  have "set_uri_body p dw w c =
      Inr (- 2147483648, dw, w\<lparr>fcurrent := fcurrent w + - 2147483647\<rparr>,
           call_set_uri c (take (to_size_t (- 2147483648)) (bytes_at w (fcurrent w))))"
    by (simp add: set_uri_body_def wa s ti eh ci)
  then show ?thesis
    unfolding m by simp
qed

lemma set_uri_at_long_record:
  assumes m: "bytes_at w (fcurrent w) = long_record @ NUL # post"
    and lt: "fcurrent w < fend w" and p: "\<not> use_embedded_http_headers p"
  shows "set_uri p w c =
      Inr (w\<lparr>fcurrent := fcurrent w - 2147483647\<rparr>,
           call_set_uri c (take (to_size_t (- 2147483648)) (long_record @ NUL # post)))"
  unfolding set_uri_def
  by (subst set_uri_loop.simps) (simp add: read_long_record [OF assms])

lemma set_uri_body_long_record:
  assumes "\<not> use_embedded_http_headers p"
  shows "set_uri_body p False (mapped_log (wlog_buffer (long_record # rest)) behind ok) c
           = Inr (- 2147483648, False,
                  (mapped_log (wlog_buffer (long_record # rest)) behind ok)
                    \<lparr>fcurrent := - 2147483647\<rparr>,
                  call_set_uri c (take (to_size_t (- 2147483648))
                                   (wlog_buffer (long_record # rest) @ behind)))"
proof -
  define w where "w = mapped_log (wlog_buffer (long_record # rest)) behind ok"
  have fe: "fcurrent w < fend w" "fcurrent w = 0"
    by (simp_all add: w_def mapped_log_def long_record_props)
  have b: "bytes_at w (fcurrent w) = long_record @ NUL # (wlog_buffer rest @ behind)"
    by (simp add: w_def mapped_log_def bytes_at_def)
  have e: "wlog_buffer (long_record # rest) @ behind = long_record @ NUL # (wlog_buffer rest @ behind)"
    by simp
  show ?thesis
    unfolding w_def [symmetric] e
    using read_long_record [OF b fe(1) assms, of False c] fe(2) by simp
qed

lemma set_uri_long_record:
  assumes "\<not> use_embedded_http_headers p"
  shows "set_uri p (mapped_log (wlog_buffer (long_record # rest)) behind ok) c
           = Inr ((mapped_log (wlog_buffer (long_record # rest)) behind ok)
                    \<lparr>fcurrent := - 2147483647\<rparr>,
                  call_set_uri c (take (to_size_t (- 2147483648))
                                   (wlog_buffer (long_record # rest) @ behind)))"
proof -
  define w where "w = mapped_log (wlog_buffer (long_record # rest)) behind ok"
  define u where "u = take (to_size_t (- 2147483648)) (wlog_buffer (long_record # rest) @ behind)"
  have "set_uri_body p False w c
          = Inr (- 2147483648, False, w\<lparr>fcurrent := - 2147483647\<rparr>, call_set_uri c u)"
    unfolding w_def u_def by (rule set_uri_body_long_record [OF assms])
  then have "set_uri p w c = Inr (w\<lparr>fcurrent := - 2147483647\<rparr>, call_set_uri c u)"
    unfolding set_uri_def by (subst set_uri_loop.simps) simp
  then show ?thesis unfolding w_def u_def .
qed

lemma produce_long_record:
  assumes "\<not> use_embedded_http_headers p"
  shows "produce p 2 (mapped_log (wlog_buffer (long_record # rest)) behind ok) = Inl Wlog_overrun"
proof -
  define w where "w = mapped_log (wlog_buffer (long_record # rest)) behind ok"
  define w' where "w' = w\<lparr>fcurrent := - 2147483647\<rparr>"
  define c' where "c' = call_set_uri new_call (take (to_size_t (- 2147483648))
                                   (wlog_buffer (long_record # rest) @ behind))"
  have s: "set_uri p w new_call = Inr (w', c')"
    unfolding w_def w'_def c'_def by (rule set_uri_long_record [OF assms])
  have "set_uri p w' new_call = Inl Wlog_overrun"
    by (intro set_uri_before_fbase) (simp_all add: w'_def w_def mapped_log_def)
  then have "produce p 2 w = Inl Wlog_overrun"
    by (simp add: numeral_2_eq_2 s)
  then show ?thesis unfolding w_def .
qed

text \<open>With the embedded headers enabled, a header block of \<open>2^31\<close> bytes:
  \<open>extra_request_headers_len++\<close> overflows before the loop over the block reaches the
  control-A.\<close>

lemma hdr_scan_overflow:
  "NUL \<notin> set h \<Longrightarrow> CTRL_A \<notin> set h \<Longrightarrow> 0 \<le> n \<Longrightarrow> n \<le> INT_MAX \<Longrightarrow>
     INT_MAX < n + int (length h) \<Longrightarrow> hdr_scan (h @ t) n = Inl Int_overflow"
proof (induction h arbitrary: n)
  case Nil
  then show ?case by simp
next
  case (Cons a h)
  show ?case
  proof (cases "n = INT_MAX")
    case True
    then have "c_int (n + 1) = Inl Int_overflow" by (simp add: c_int_def)
    with Cons.prems show ?thesis by auto
  next
    case False
    with Cons.prems have "c_int (n + 1) = Inr (n + 1)"
      by (intro c_int_small) simp_all
    moreover from Cons.prems False have "hdr_scan (h @ t) (n + 1) = Inl Int_overflow"
      by (intro Cons.IH) simp_all
    ultimately show ?thesis using Cons.prems by auto
  qed
qed

lemma set_uri_long_header:
  assumes "use_embedded_http_headers p"
  shows "set_uri p (mapped_log (wlog_buffer [long_record @ [CTRL_A]]) behind ok) c
           = Inl Int_overflow"
proof -
  define w where "w = mapped_log (wlog_buffer [long_record @ [CTRL_A]]) behind ok"
  have fe: "0 < fend w" "fcurrent w = 0"
    by (simp_all add: w_def mapped_log_def long_record_props)
  have b: "bytes_at w (fcurrent w) = long_record @ CTRL_A # NUL # behind"
    by (simp add: w_def mapped_log_def bytes_at_def)
  have "c_strlen ((long_record @ [CTRL_A]) @ NUL # behind) = Some (length (long_record @ [CTRL_A]))"
    using long_record_props(1) by (intro c_strlen_record) simp
  then have s: "c_strlen (bytes_at w (fcurrent w)) = Some 2147483649"
    unfolding b by (simp add: long_record_props)
  have wa: "wrap_around p False w = Inr (False, w)"
    using fe by (simp add: wrap_around_def)
  have ti: "to_int 2147483649 = - 2147483647"
    by (simp add: to_int_def)
  have ts: "to_size_t (- 2147483647) = 18446744071562067969"
    by (simp add: to_size_t_def)
  have mc: "c_memchr (bytes_at w (fcurrent w)) CTRL_A 18446744071562067969
              = Some (Some (length long_record))"
    unfolding b using long_record_props(2)
    by (intro c_memchr_some) (simp_all add: long_record_props)
  have hs: "hdr_scan (bytes_at w (fcurrent w)) 0 = Inl Int_overflow"
    unfolding b using long_record_props(1,2)
    by (intro hdr_scan_overflow) (simp_all add: long_record_props INT_MAX_def)
  have "embedded_headers p w (fcurrent w) (- 2147483647) c = Inl Int_overflow"
    using assms by (simp add: embedded_headers_def ts mc hs)
  then have "set_uri_body p False w c = Inl Int_overflow"
    by (simp add: set_uri_body_def wa s ti)
  then show ?thesis
    unfolding w_def [symmetric] set_uri_def by (subst set_uri_loop.simps) simp
qed

subsection \<open>Headers and targets\<close>

lemma call_set_uri_twice [simp]: "call_set_uri (call_set_uri c u) v = call_set_uri c v"
  by (simp add: call_set_uri_def)

lemma req_uri_call_set_uri [simp]: "req_uri (call_set_uri c u) = u"
  by (simp add: call_set_uri_def)

lemma pass_record_empty [simp]: "pass_record p ok [] c = Inr (0, [], call_set_uri c [])"
  by (simp add: pass_record_def)

lemma uris_Nil [simp]: "uris p [] = []"
  by (simp add: uris_def)

lemma uris_Cons:
  "uris p (r # rs) = (if target p r = [] then uris p rs else target p r # uris p rs)"
  by (simp add: uris_def)

lemma target_plain: "\<not> has_header p r \<Longrightarrow> target p r = r"
  by (simp add: target_def)

lemma target_empty [simp]: "target p [] = []"
  by (simp add: target_def has_header_def)

lemma uris_sentinel_free: "sentinel_free p rs \<Longrightarrow> uris p rs = nonempty rs"
proof -
  assume "sentinel_free p rs"
  then have "\<forall>r\<in>set rs. target p r = r"
    by (auto simp: sentinel_free_def list_all_iff target_def has_header_def)
  then have "map (target p) rs = rs"
    by (simp add: map_idI)
  then show ?thesis by (simp add: uris_def)
qed

lemma uris_all_targets:
  "list_all (\<lambda>r. target p r \<noteq> []) rs \<Longrightarrow> uris p rs = map (target p) rs"
  by (induction rs) (auto simp: uris_Cons)

text \<open>A record whose header block can be decoded, or that has none: the pass sets the URI to
  the target of the record, and \<open>len\<close> is the length of the target.\<close>

lemma pass_record_target:
  assumes r: "NUL \<notin> set r" and d: "decodes p ok r"
  shows "\<exists>ws c'. pass_record p ok r c = Inr (int (length (target p r)), ws, c')
           \<and> req_uri c' = target p r"
proof (cases "has_header p r")
  case False
  then have "\<not> (use_embedded_http_headers p \<and> CTRL_A \<in> set r)"
    by (simp add: has_header_def)
  then have "pass_record p ok r c = Inr (int (length r), [], call_set_uri c r)"
    by (auto simp: pass_record_def)
  with False show ?thesis by (simp add: target_def)
next
  case True
  then have u: "use_embedded_http_headers p \<and> CTRL_A \<in> set r"
    by (simp add: has_header_def)
  from True d have ok: "ok" and l: "\<not> lone_backslash_end (header r)"
    by (simp_all add: decodes_def)
  have hn: "NUL \<notin> set (header r)"
    using r unfolding header_def by (auto dest: set_takeWhileD)
  from unescape_local_cases [OF hn] l obtain out warns where
    e: "unescape_local True (header r @ [NUL]) = Inr (out, warns)" by auto
  have s: "r = header r @ CTRL_A # target p r"
    using split_at_ctrl_a [of r] u True by (simp add: header_def target_def)
  have "length r = length (header r) + 1 + length (target p r)"
    by (subst s) simp
  then have len: "int (length r) - (int (length (header r)) + 1) = int (length (target p r))"
    by simp
  have "pass_record p ok r c =
          Inr (int (length (target p r)), warns,
               call_set_uri (call_append_request_header c out) (target p r))"
    using u ok e len True
    by (simp add: pass_record_def header_def [symmetric] target_def)
  then show ?thesis by simp
qed

text \<open>The scan over records whose header blocks can be decoded: it passes the records with an
  empty target and leaves the loop at the first record with a target.\<close>

lemma scan_records_none:
  assumes "\<forall>r\<in>set todo. NUL \<notin> set r" "headers_ok p ok todo" "uris p todo = []"
  shows "\<exists>ws c'. scan_records p ok todo c = Inr (False, length todo, ws, c')"
  using assms
proof (induction todo arbitrary: c)
  case Nil
  then show ?case by simp
next
  case (Cons r todo)
  from Cons.prems have r: "NUL \<notin> set r" "decodes p ok r" and t: "target p r = []"
    and u: "uris p todo = []"
    by (auto simp: headers_ok_def uris_Cons split: if_splits)
  from pass_record_target [OF r, of c] t obtain ws c1 where
    1: "pass_record p ok r c = Inr (0, ws, c1)" by auto
  from Cons.prems have "\<forall>r\<in>set todo. NUL \<notin> set r" "headers_ok p ok todo"
    by (simp_all add: headers_ok_def)
  from Cons.IH [OF this u, of c1] obtain ws' c' where
    "scan_records p ok todo c1 = Inr (False, length todo, ws', c')" by blast
  with 1 show ?case by simp
qed

lemma scan_records_some:
  assumes "\<forall>r\<in>set todo. NUL \<notin> set r" "headers_ok p ok todo" "uris p todo = u # us"
  shows "\<exists>k ws c'. scan_records p ok todo c = Inr (True, k, ws, c') \<and> req_uri c' = u
           \<and> k \<le> length todo \<and> uris p (drop k todo) = us"
  using assms
proof (induction todo arbitrary: c)
  case Nil
  then show ?case by simp
next
  case (Cons r todo)
  from Cons.prems have r: "NUL \<notin> set r" "decodes p ok r"
    by (simp_all add: headers_ok_def)
  from pass_record_target [OF r, of c] obtain ws c1 where
    1: "pass_record p ok r c = Inr (int (length (target p r)), ws, c1)"
    and 2: "req_uri c1 = target p r" by auto
  show ?case
  proof (cases "target p r = []")
    case True
    with Cons.prems have u: "uris p todo = u # us" by (simp add: uris_Cons)
    from Cons.prems have "\<forall>r\<in>set todo. NUL \<notin> set r" "headers_ok p ok todo"
      by (simp_all add: headers_ok_def)
    from Cons.IH [OF this u, of c1] obtain k ws' c' where
      "scan_records p ok todo c1 = Inr (True, k, ws', c')" "req_uri c' = u"
      "k \<le> length todo" "uris p (drop k todo) = us" by blast
    with 1 True have "scan_records p ok (r # todo) c = Inr (True, Suc k, ws @ ws', c')
        \<and> req_uri c' = u \<and> Suc k \<le> length (r # todo) \<and> uris p (drop (Suc k) (r # todo)) = us"
      by simp
    then show ?thesis by blast
  next
    case False
    with Cons.prems have "u = target p r" "us = uris p todo" by (simp_all add: uris_Cons)
    with 1 2 False have "scan_records p ok (r # todo) c = Inr (True, 1, ws, c1)
        \<and> req_uri c1 = u \<and> 1 \<le> length (r # todo) \<and> uris p (drop 1 (r # todo)) = us"
      by simp
    then show ?thesis by blast
  qed
qed

lemma scan_records_empties:
  "list_all (\<lambda>r. r = []) es \<Longrightarrow>
     scan_records p ok es c = Inr (False, length es, [], if es = [] then c else call_set_uri c [])"
  by (induction es arbitrary: c) auto

lemma at_record_moved:
  assumes "at_record done todo w" "done' @ todo' = done @ todo"
    "mem w' = mem w" "fend w' = fend w" "fcurrent w' = int (length (wlog_buffer done'))"
  shows "at_record done' todo' w'"
  using assms by (auto simp: at_record_def)

lemma log_records_set: "log_records rs \<Longrightarrow> \<forall>r\<in>set rs. NUL \<notin> set r \<and> int (length r) < INT_MAX"
  by (simp add: log_records_def list_all_iff)

text \<open>One call of \<open>set_uri\<close> on a log with at least one target: the URI is the next target
  behind the cursor, or the first target of the log after a wrap-around.\<close>

lemma set_uri_step:
  assumes at: "at_record done todo w" and rs: "done @ todo = rs"
    and lr: "log_records rs" and ho: "headers_ok p (heap_ok w) rs" and ne: "uris p rs = r0 # t0"
  shows "\<exists>w' c' done' todo'.
           set_uri p w c = Inr (w', c') \<and> req_uri c' = hd (uris p todo @ [r0])
           \<and> at_record done' todo' w' \<and> done' @ todo' = rs
           \<and> uris p todo' = (if uris p todo = [] then t0 else tl (uris p todo))
           \<and> heap_ok w' = heap_ok w
           \<and> core_exit_calls w' =
               (if uris p todo = [] \<and> \<not> wlog_do_loop p then Suc (core_exit_calls w)
                else core_exit_calls w)"
proof -
  have nul': "\<forall>r\<in>set (done @ todo). NUL \<notin> set r \<and> int (length r) < INT_MAX"
    using log_records_set [OF lr] rs by simp
  have n1: "\<forall>r\<in>set todo. NUL \<notin> set r" and n2: "\<forall>r\<in>set rs. NUL \<notin> set r"
    using nul' rs by auto
  have h1: "headers_ok p (heap_ok w) todo"
    using ho rs by (auto simp: headers_ok_def)
  have nemp: "done @ todo \<noteq> []" using ne rs by auto
  note su = set_uri_next_uri [OF at nul' nemp, of p c, unfolded rs]
  show ?thesis
  proof (cases "uris p todo")
    case Nil
    from scan_records_none [OF n1 h1 Nil, of c] obtain ws c1 where
      a: "scan_records p (heap_ok w) todo c = Inr (False, length todo, ws, c1)" by blast
    from scan_records_some [OF n2 ho ne, of c1] obtain k ws2 c2 where
      b: "scan_records p (heap_ok w) rs c1 = Inr (True, k, ws2, c2)" and u: "req_uri c2 = r0"
      and d: "uris p (drop k rs) = t0" by blast
    have n: "next_uri p (heap_ok w) rs todo c = Inr (True, k, ws @ ws2, c2)"
      by (simp add: next_uri_def a b)
    define w' where "w' = (wrapped_world p w)\<lparr>stderr_warn := stderr_warn w @ ws @ ws2,
                  fcurrent := int (length (wlog_buffer (take k rs)))\<rparr>"
    have 1: "set_uri p w c = Inr (w', c2)"
      by (simp add: su n w'_def)
    have 2: "at_record (take k rs) (drop k rs) w'"
      by (intro at_record_moved [OF at])
        (simp_all add: rs w'_def wrapped_world_def core_exit_def)
    have 3: "heap_ok w' = heap_ok w
        \<and> core_exit_calls w' = (if uris p todo = [] \<and> \<not> wlog_do_loop p then Suc (core_exit_calls w)
                else core_exit_calls w)"
      by (simp add: w'_def wrapped_world_def core_exit_def Nil)
    from 1 2 3 u d Nil show ?thesis
      by (intro exI [of _ w'] exI [of _ c2] exI [of _ "take k rs"] exI [of _ "drop k rs"]) simp
  next
    case (Cons u us)
    from scan_records_some [OF n1 h1 Cons, of c] obtain k ws c1 where
      a: "scan_records p (heap_ok w) todo c = Inr (True, k, ws, c1)" and u: "req_uri c1 = u"
      and d: "uris p (drop k todo) = us" by blast
    have n: "next_uri p (heap_ok w) rs todo c = Inr (False, k, ws, c1)"
      by (simp add: next_uri_def a)
    define w' where "w' = w\<lparr>stderr_warn := stderr_warn w @ ws,
                  fcurrent := int (length (wlog_buffer (done @ take k todo)))\<rparr>"
    have 1: "set_uri p w c = Inr (w', c1)"
      by (simp add: su n w'_def)
    have 2: "at_record (done @ take k todo) (drop k todo) w'"
      by (intro at_record_moved [OF at]) (simp_all add: w'_def)
    have 3: "heap_ok w' = heap_ok w
        \<and> core_exit_calls w' = (if uris p todo = [] \<and> \<not> wlog_do_loop p then Suc (core_exit_calls w)
                else core_exit_calls w)"
      by (simp add: w'_def Cons)
    have 4: "(done @ take k todo) @ drop k todo = rs" using rs by simp
    from 1 2 3 4 u d Cons show ?thesis
      by (intro exI [of _ w'] exI [of _ c1] exI [of _ "done @ take k todo"]
          exI [of _ "drop k todo"]) simp
  qed
qed

lemma produce_no_wrap:
  assumes "at_record done todo w" "done @ todo = rs" "heap_ok w = ok"
    and "log_records rs" "headers_ok p ok rs" "uris p rs = r0 # t0"
    and "k \<le> length (uris p todo)"
  shows "\<exists>w' cs done' todo'.
           produce p k w = Inr (w', cs) \<and> map req_uri cs = take k (uris p todo)
           \<and> at_record done' todo' w' \<and> done' @ todo' = rs
           \<and> uris p todo' = drop k (uris p todo)
           \<and> heap_ok w' = ok \<and> core_exit_calls w' = core_exit_calls w"
  using assms(1,2,3,7)
proof (induction k arbitrary: "done" todo w)
  case 0
  then show ?case by auto
next
  case (Suc k)
  from Suc.prems(4) obtain r t where rt: "uris p todo = r # t"
    by (cases "uris p todo") auto
  have ho: "headers_ok p (heap_ok w) rs" using assms(5) Suc.prems(3) by simp
  from set_uri_step [OF Suc.prems(1,2) assms(4) ho assms(6), of new_call] rt
  obtain w1 c1 d1 t1 where
    1: "set_uri p w new_call = Inr (w1, c1)" "req_uri c1 = r"
    and 2: "at_record d1 t1 w1" "d1 @ t1 = rs" and 3: "uris p t1 = t"
    and 4: "heap_ok w1 = heap_ok w" "core_exit_calls w1 = core_exit_calls w"
    by auto
  have 5: "heap_ok w1 = ok" using 4 Suc.prems(3) by simp
  have "k \<le> length (uris p t1)" using Suc.prems(4) rt 3 by simp
  from Suc.IH [OF 2 5 this] obtain w' cs done' todo' where
    6: "produce p k w1 = Inr (w', cs)" "map req_uri cs = take k (uris p t1)"
    and 7: "at_record done' todo' w'" "done' @ todo' = rs" "uris p todo' = drop k (uris p t1)"
      "heap_ok w' = ok" "core_exit_calls w' = core_exit_calls w1"
    by blast
  have "produce p (Suc k) w = Inr (w', c1 # cs)
      \<and> map req_uri (c1 # cs) = take (Suc k) (uris p todo)"
    by (simp add: 1 6 rt 3)
  with 7 4 3 rt show ?case
    by (intro exI [of _ w'] exI [of _ "c1 # cs"] exI [of _ done'] exI [of _ todo']) simp
qed





lemma at_record_mapped_log: "at_record [] rs (mapped_log (wlog_buffer rs) behind ok)"
  by (simp add: at_record_def mapped_log_def)

lemma mapped_log_sel [simp]:
  "heap_ok (mapped_log bytes behind ok) = ok"
  "core_exit_calls (mapped_log bytes behind ok) = 0"
  "stderr_warn (mapped_log bytes behind ok) = []"
  "fcurrent (mapped_log bytes behind ok) = 0"
  "fend (mapped_log bytes behind ok) = int (length bytes)"
  "mem (mapped_log bytes behind ok) = bytes @ behind"
  by (simp_all add: mapped_log_def)

subsection \<open>Replaying a log\<close>

text \<open>
  Claim C1, as the code has it. A log of NUL-terminated records of fewer than \<open>INT_MAX\<close> bytes
  each, looping disabled, the header blocks of the records decodable: the first calls of
  \<open>set_uri\<close>, as many as the log has targets that are not empty, set the URIs of their calls
  to these targets in file order, without a call of \<open>core_exit\<close>; the next call calls
  \<open>core_exit\<close> once and still sets a URI, the first target. The target of a record is the
  record itself, or what stands behind its first control-A when the embedded headers are
  enabled. When every record has a target that is not empty, the targets replayed are those of
  all the records; with the embedded headers disabled, or no control-A in the log, and no
  empty record, they are the records themselves.
\<close>

theorem set_uri_replays_log:
  assumes rs: "log_records rs" "uris p rs \<noteq> []"
    and p: "\<not> wlog_do_loop p" "headers_ok p ok rs"
  shows "\<exists>w' cs w'' c.
           produce p (length (uris p rs)) (mapped_log (wlog_buffer rs) behind ok) = Inr (w', cs)
           \<and> map req_uri cs = uris p rs \<and> core_exit_calls w' = 0
           \<and> set_uri p w' new_call = Inr (w'', c)
           \<and> req_uri c = hd (uris p rs) \<and> core_exit_calls w'' = 1
           \<and> (list_all (\<lambda>r. target p r \<noteq> []) rs \<longrightarrow> uris p rs = map (target p) rs)
           \<and> (sentinel_free p rs \<and> list_all (\<lambda>r. r \<noteq> []) rs \<longrightarrow> uris p rs = rs)"
proof -
  from rs(2) obtain r0 t0 where ne: "uris p rs = r0 # t0" by (cases "uris p rs") auto
  define w0 where "w0 = mapped_log (wlog_buffer rs) behind ok"
  have at: "at_record [] rs w0" unfolding w0_def by (rule at_record_mapped_log)
  have ok: "heap_ok w0 = ok" by (simp add: w0_def)
  from produce_no_wrap [OF at _ ok rs(1) p(2) ne, of "length (uris p rs)"]
  obtain w' cs done' todo' where
    1: "produce p (length (uris p rs)) w0 = Inr (w', cs)" "map req_uri cs = uris p rs"
    and 2: "at_record done' todo' w'" "done' @ todo' = rs"
    and 3: "uris p todo' = []"
    and 4: "heap_ok w' = ok" "core_exit_calls w' = core_exit_calls w0"
    by auto
  have ho: "headers_ok p (heap_ok w') rs" using p(2) 4 by simp
  from set_uri_step [OF 2 rs(1) ho ne, of new_call] 3 p(1)
  obtain w'' c where
    5: "set_uri p w' new_call = Inr (w'', c)" "req_uri c = r0"
    and 6: "core_exit_calls w'' = Suc (core_exit_calls w')"
    by auto
  have 7: "uris p rs = map (target p) rs" if "list_all (\<lambda>r. target p r \<noteq> []) rs"
    using that by (rule uris_all_targets)
  have 8: "uris p rs = rs" if "sentinel_free p rs \<and> list_all (\<lambda>r. r \<noteq> []) rs"
  proof -
    from that have "nonempty rs = rs" by (simp add: list_all_iff)
    with that uris_sentinel_free [of p rs] show ?thesis by simp
  qed
  have "produce p (length (uris p rs)) w0 = Inr (w', cs)
        \<and> map req_uri cs = uris p rs \<and> core_exit_calls w' = 0
        \<and> set_uri p w' new_call = Inr (w'', c)
        \<and> req_uri c = hd (uris p rs) \<and> core_exit_calls w'' = 1"
    using 1 4 5 6 ne by (simp add: w0_def)
  with 7 8 show ?thesis unfolding w0_def by blast
qed

theorem set_uri_replays_log_witness:
  "log_records [''H'' @ [CTRL_A] @ ''/x'', ''/b''] \<and> \<not> wlog_do_loop header_mode
   \<and> headers_ok header_mode True [''H'' @ [CTRL_A] @ ''/x'', ''/b'']
   \<and> uris header_mode [''H'' @ [CTRL_A] @ ''/x'', ''/b''] = [''/x'', ''/b'']
   \<and> (\<exists>w' cs w'' c.
        produce header_mode 2
          (mapped_log (wlog_buffer [''H'' @ [CTRL_A] @ ''/x'', ''/b'']) [] True) = Inr (w', cs)
        \<and> map req_uri cs = [''/x'', ''/b''] \<and> core_exit_calls w' = 0
        \<and> set_uri header_mode w' new_call = Inr (w'', c)
        \<and> req_uri c = ''/x'' \<and> core_exit_calls w'' = 1)"
proof -
  define rs where "rs = [''H'' @ [CTRL_A] @ ''/x'', ''/b'']"
  have u: "uris header_mode rs = [''/x'', ''/b'']"
    unfolding rs_def by code_simp
  have h: "log_records rs" "uris header_mode rs \<noteq> []" "\<not> wlog_do_loop header_mode"
    "headers_ok header_mode True rs"
    unfolding u unfolding rs_def by code_simp+
  from set_uri_replays_log [OF h, of "[]"] obtain w' cs w'' c where
    "produce header_mode (length (uris header_mode rs)) (mapped_log (wlog_buffer rs) [] True)
       = Inr (w', cs)"
    "map req_uri cs = uris header_mode rs" "core_exit_calls w' = 0"
    "set_uri header_mode w' new_call = Inr (w'', c)"
    "req_uri c = hd (uris header_mode rs)" "core_exit_calls w'' = 1"
    by blast
  then have "produce header_mode 2 (mapped_log (wlog_buffer rs) [] True) = Inr (w', cs)
        \<and> map req_uri cs = [''/x'', ''/b''] \<and> core_exit_calls w' = 0
        \<and> set_uri header_mode w' new_call = Inr (w'', c)
        \<and> req_uri c = ''/x'' \<and> core_exit_calls w'' = 1"
    unfolding u by (simp del: produce.simps add: numeral_2_eq_2)
  then have "\<exists>w' cs w'' c.
        produce header_mode 2 (mapped_log (wlog_buffer rs) [] True) = Inr (w', cs)
        \<and> map req_uri cs = [''/x'', ''/b''] \<and> core_exit_calls w' = 0
        \<and> set_uri header_mode w' new_call = Inr (w'', c)
        \<and> req_uri c = ''/x'' \<and> core_exit_calls w'' = 1"
    by (intro exI)
  with h(1,3,4) u show ?thesis unfolding rs_def [symmetric] by (simp del: produce.simps)
qed

text \<open>With the embedded headers enabled, the record \<open>H^A/x\<close> sets the URI \<open>/x\<close>, not the
  record; of the two records \<open>H^A\<close> and \<open>/b\<close>, neither of them empty, the first is passed
  over: both calls set the URI \<open>/b\<close>; and a header block that ends in a lone backslash
  stops the replay in the decoder. With the embedded headers disabled, a log whose first
  record has \<open>2^31\<close> bytes: the second call reads in front of \<open>fbase\<close>.\<close>

theorem set_uri_replays_log_counterexample:
  "targets header_mode 1 (mapped_log (wlog_buffer [''H'' @ [CTRL_A] @ ''/x'']) [] True) = Inr [''/x'']
   \<and> [''/x''] \<noteq> [''H'' @ [CTRL_A] @ ''/x'']
   \<and> targets header_mode 2 (mapped_log (wlog_buffer [''H'' @ [CTRL_A], ''/b'']) [] True)
       = Inr [''/b'', ''/b'']
   \<and> [''/b'', ''/b''] \<noteq> [''H'' @ [CTRL_A], ''/b'']
   \<and> targets header_mode 1 (mapped_log (wlog_buffer [''H'' @ [BSLASH, CTRL_A] @ ''/x'']) [] True)
       = Inl Heap_overrun
   \<and> targets plain_mode 2 (mapped_log (wlog_buffer [long_record, ''/b'']) [] True)
       = Inl Wlog_overrun"
proof -
  have 1: "targets header_mode 1 (mapped_log (wlog_buffer [''H'' @ [CTRL_A] @ ''/x'']) [] True)
      = Inr [''/x'']"
    "[''/x''] \<noteq> [''H'' @ [CTRL_A] @ ''/x'']"
    "targets header_mode 2 (mapped_log (wlog_buffer [''H'' @ [CTRL_A], ''/b'']) [] True)
       = Inr [''/b'', ''/b'']"
    "[''/b'', ''/b''] \<noteq> [''H'' @ [CTRL_A], ''/b'']"
    "targets header_mode 1 (mapped_log (wlog_buffer [''H'' @ [BSLASH, CTRL_A] @ ''/x'']) [] True)
       = Inl Heap_overrun"
    by code_simp+
  have p: "\<not> use_embedded_http_headers plain_mode" by (simp add: plain_mode_def)
  have 2: "targets plain_mode 2 (mapped_log (wlog_buffer [long_record, ''/b'']) [] True)
       = Inl Wlog_overrun"
    unfolding targets_def produce_long_record [OF p] by simp
  from 1 2 show ?thesis by blast
qed

text \<open>
  Claim C4. A log file that holds nothing but NUL bytes, \<open>n > 0\<close> of them: \<open>init_wlog\<close> maps it,
  and the first call of \<open>set_uri\<close> ends in the panic that the file does not contain any valid
  URIs, whatever the parameters are.
\<close>

theorem set_uri_only_empty_records_panics:
  assumes "0 < n"
  shows "init_wlog (Some (replicate n NUL)) (Some behind) ok
           = Inr (mapped_log (replicate n NUL) behind ok)
         \<and> set_uri p (mapped_log (replicate n NUL) behind ok) c = Inl Panic_no_valid_URIs"
proof -
  define rs :: "char list list" where "rs = replicate n []"
  have b: "wlog_buffer rs = replicate n NUL"
    unfolding rs_def by (induction n) auto
  have e: "list_all (\<lambda>r. r = []) rs" by (simp add: rs_def list_all_iff)
  have ne: "[] @ rs \<noteq> []" using assms by (simp add: rs_def)
  have nul: "\<forall>r\<in>set ([] @ rs). NUL \<notin> set r \<and> int (length r) < INT_MAX"
    by (simp add: rs_def INT_MAX_def)
  have at: "at_record [] rs (mapped_log (replicate n NUL) behind ok)"
    using at_record_mapped_log [of rs behind ok] by (simp add: b)
  have n: "next_uri p ok rs rs c = Inl Panic_no_valid_URIs"
    by (simp add: next_uri_def scan_records_empties [OF e])
  have "set_uri p (mapped_log (replicate n NUL) behind ok) c = Inl Panic_no_valid_URIs"
    using set_uri_next_uri [OF at nul ne, of p c] by (simp add: n)
  then show ?thesis using assms by (simp add: init_wlog_def)
qed

theorem set_uri_only_empty_records_panics_witness:
  "init_wlog (Some [NUL]) (Some []) True = Inr (mapped_log [NUL] [] True)
   \<and> set_uri plain_mode (mapped_log [NUL] [] True) new_call = Inl Panic_no_valid_URIs"
  using set_uri_only_empty_records_panics [of 1 "[]" True plain_mode new_call] by simp




subsection \<open>The cursor\<close>

lemma pass_record_error:
  "pass_record p ok r c = Inl e \<Longrightarrow> e \<noteq> Wlog_overrun \<and> e \<noteq> Int_overflow"
  by (auto simp: pass_record_def split: if_splits sum.splits dest: unescape_local_error)

lemma scan_records_error:
  "scan_records p ok todo c = Inl e \<Longrightarrow> e \<noteq> Wlog_overrun \<and> e \<noteq> Int_overflow"
proof (induction todo arbitrary: c)
  case Nil
  then show ?case by simp
next
  case (Cons r todo)
  then show ?case
    by (auto split: sum.splits if_splits dest: pass_record_error)
qed

lemma next_uri_error:
  "next_uri p ok rs todo c = Inl e \<Longrightarrow> e \<noteq> Wlog_overrun \<and> e \<noteq> Int_overflow"
  by (auto simp: next_uri_def split: sum.splits if_splits dest: scan_records_error)

lemma set_uri_at_record:
  assumes at: "at_record done todo w" and lr: "log_records (done @ todo)"
    and ne: "done @ todo \<noteq> []"
  shows "set_uri p w c \<noteq> Inl Wlog_overrun" and "set_uri p w c \<noteq> Inl Int_overflow"
    and "set_uri p w c = Inr (w', c') \<Longrightarrow>
           \<exists>done' todo'. at_record done' todo' w' \<and> done' @ todo' = done @ todo"
proof -
  note su = set_uri_next_uri [OF at log_records_set [OF lr] ne, of p c]
  show "set_uri p w c \<noteq> Inl Wlog_overrun"
    unfolding su by (auto split: sum.splits dest: next_uri_error)
  show "set_uri p w c \<noteq> Inl Int_overflow"
    unfolding su by (auto split: sum.splits dest: next_uri_error)
  assume r: "set_uri p w c = Inr (w', c')"
  then obtain wrapped k warns where
    w': "w' = (if wrapped then wrapped_world p w else w)
                 \<lparr>stderr_warn := stderr_warn w @ warns,
                  fcurrent := int (length (wlog_buffer (if wrapped then take k (done @ todo)
                                                        else done @ take k todo)))\<rparr>"
    unfolding su by (auto split: sum.splits)
  show "\<exists>done' todo'. at_record done' todo' w' \<and> done' @ todo' = done @ todo"
  proof (cases wrapped)
    case True
    have "at_record (take k (done @ todo)) (drop k (done @ todo)) w'"
      by (intro at_record_moved [OF at])
        (simp_all add: w' True wrapped_world_def core_exit_def del: take_append drop_append)
    then show ?thesis by (metis append_take_drop_id)
  next
    case False
    have "at_record (done @ take k todo) (drop k todo) w'"
      by (intro at_record_moved [OF at]) (simp_all add: w' False)
    then show ?thesis by (metis append.assoc append_take_drop_id)
  qed
qed

lemma at_record_cursor: "at_record done todo w \<Longrightarrow> 0 \<le> fcurrent w \<and> fcurrent w \<le> fend w"
  by (auto simp: at_record_def wlog_buffer_append)

lemma produce_at_record:
  assumes "at_record done todo w" "log_records (done @ todo)" "done @ todo \<noteq> []"
  shows "produce p k w \<noteq> Inl Wlog_overrun \<and> produce p k w \<noteq> Inl Int_overflow
         \<and> (\<forall>w' cs. produce p k w = Inr (w', cs) \<longrightarrow>
               (\<exists>done' todo'. at_record done' todo' w' \<and> done' @ todo' = done @ todo))"
  using assms
proof (induction k arbitrary: "done" todo w)
  case 0
  then show ?case by auto
next
  case (Suc k)
  note s = set_uri_at_record [OF Suc.prems, of p new_call]
  show ?case
  proof (cases "set_uri p w new_call")
    case (Inl e)
    with s(1,2) show ?thesis by auto
  next
    case (Inr x)
    then obtain w1 c1 where x: "set_uri p w new_call = Inr (w1, c1)" by (cases x) auto
    from s(3) [OF x] obtain d1 t1 where
      1: "at_record d1 t1 w1" "d1 @ t1 = done @ todo" by blast
    from Suc.IH [OF 1(1)] 1(2) Suc.prems(2,3)
    have "produce p k w1 \<noteq> Inl Wlog_overrun \<and> produce p k w1 \<noteq> Inl Int_overflow
         \<and> (\<forall>w' cs. produce p k w1 = Inr (w', cs) \<longrightarrow>
               (\<exists>done' todo'. at_record done' todo' w' \<and> done' @ todo' = done @ todo))"
      by simp
    then show ?thesis
      by (auto simp: x split: sum.splits)
  qed
qed

text \<open>
  Claim C7, as the code has it. A log in which every record, the last one too, is followed by
  its NUL and has fewer than \<open>INT_MAX\<close> bytes: after any number of calls of \<open>set_uri\<close> since
  \<open>init_wlog\<close> the cursor is not in front of \<open>fbase\<close> and not behind \<open>fend\<close>, and no call
  has read outside the readable memory or overflowed an \<open>int\<close>. This holds whatever lies
  behind the file in memory, and when nothing does (\<open>behind = []\<close>), so no byte at or behind
  \<open>fend\<close> is read.
\<close>

theorem cursor_within_terminated_log:
  assumes "log_records rs" "rs \<noteq> []"
  shows "produce p k (mapped_log (wlog_buffer rs) behind ok) \<noteq> Inl Wlog_overrun
         \<and> produce p k (mapped_log (wlog_buffer rs) behind ok) \<noteq> Inl Int_overflow
         \<and> (\<forall>w' cs. produce p k (mapped_log (wlog_buffer rs) behind ok) = Inr (w', cs) \<longrightarrow>
               0 \<le> fcurrent w' \<and> fcurrent w' \<le> fend w')"
proof -
  note at = at_record_mapped_log [of rs behind ok]
  from produce_at_record [OF at, of p k] assms
  have 1: "produce p k (mapped_log (wlog_buffer rs) behind ok) \<noteq> Inl Wlog_overrun"
    "produce p k (mapped_log (wlog_buffer rs) behind ok) \<noteq> Inl Int_overflow"
    and 2: "\<And>w' cs. produce p k (mapped_log (wlog_buffer rs) behind ok) = Inr (w', cs) \<Longrightarrow>
               \<exists>done' todo'. at_record done' todo' w' \<and> done' @ todo' = rs"
    by auto
  have "0 \<le> fcurrent w' \<and> fcurrent w' \<le> fend w'"
    if "produce p k (mapped_log (wlog_buffer rs) behind ok) = Inr (w', cs)" for w' cs
    using 2 [OF that] at_record_cursor by blast
  with 1 show ?thesis by blast
qed

theorem cursor_within_terminated_log_witness:
  "log_records [''/a'', ''/b'']
   \<and> cursor_after (produce plain_mode 3 (mapped_log (wlog_buffer [''/a'', ''/b'']) [] True))
       = Inr (3, 6)
   \<and> produce plain_mode 3 (mapped_log (wlog_buffer [''/a'', ''/b'']) [] True) \<noteq> Inl Wlog_overrun
   \<and> (\<exists>w' cs. produce plain_mode 3 (mapped_log (wlog_buffer [''/a'', ''/b'']) [] True) = Inr (w', cs)
         \<and> 0 \<le> fcurrent w' \<and> fcurrent w' \<le> fend w')"
proof -
  have h: "log_records [''/a'', ''/b'']" "[''/a'', ''/b''] \<noteq> []"
    by (simp_all add: log_records_def INT_MAX_def)
  have c: "cursor_after (produce plain_mode 3 (mapped_log (wlog_buffer [''/a'', ''/b'']) [] True))
          = Inr (3, 6)"
    by code_simp
  then obtain w' cs where
    e: "produce plain_mode 3 (mapped_log (wlog_buffer [''/a'', ''/b'']) [] True) = Inr (w', cs)"
    by (auto simp: cursor_after_def split: sum.splits)
  from cursor_within_terminated_log [OF h, of plain_mode 3 "[]" True] e
  have "produce plain_mode 3 (mapped_log (wlog_buffer [''/a'', ''/b'']) [] True) \<noteq> Inl Wlog_overrun
     \<and> 0 \<le> fcurrent w' \<and> fcurrent w' \<le> fend w'"
    by simp
  with e h(1) c show ?thesis by blast
qed

text \<open>The file \<open>ab\<close> has no NUL. When the byte behind the file is a NUL, \<open>strlen\<close> reads it and the
  cursor ends up at 3, behind \<open>fend = 2\<close>; when nothing is readable behind the file, \<open>strlen\<close>
  leaves the mapping. The file that holds the record of \<open>2^31\<close> bytes and its NUL: the first
  call leaves the cursor \<open>2^31 - 1\<close> bytes in front of \<open>fbase\<close>, and the second call reads
  there.\<close>

theorem cursor_unterminated_counterexample:
  "cursor_after (set_uri plain_mode (mapped_log ''ab'' [NUL] True) new_call) = Inr (3, 2)
   \<and> set_uri plain_mode (mapped_log ''ab'' [] True) new_call = Inl Wlog_overrun
   \<and> pass_len (set_uri_body plain_mode False (mapped_log (wlog_buffer [long_record]) [] True)
        new_call) = Inr (- 2147483648)
   \<and> cursor_after (set_uri plain_mode (mapped_log (wlog_buffer [long_record]) [] True) new_call)
       = Inr (- 2147483647, 2147483649)
   \<and> produce plain_mode 2 (mapped_log (wlog_buffer [long_record]) [] True) = Inl Wlog_overrun"
proof -
  have 1: "cursor_after (set_uri plain_mode (mapped_log ''ab'' [NUL] True) new_call) = Inr (3, 2)"
    "set_uri plain_mode (mapped_log ''ab'' [] True) new_call = Inl Wlog_overrun"
    by code_simp+
  have p: "\<not> use_embedded_http_headers plain_mode" by (simp add: plain_mode_def)
  have 2: "pass_len (set_uri_body plain_mode False (mapped_log (wlog_buffer [long_record]) [] True)
        new_call) = Inr (- 2147483648)"
    unfolding set_uri_body_long_record [OF p] by (simp add: pass_len_def)
  have 3: "cursor_after (set_uri plain_mode (mapped_log (wlog_buffer [long_record]) [] True) new_call)
       = Inr (- 2147483647, 2147483649)"
    unfolding set_uri_long_record [OF p]
    by (simp add: cursor_after_def mapped_log_def long_record_props)
  note 4 = produce_long_record [OF p, of "[]" "[]" True]
  from 1 2 3 4 show ?thesis by blast
qed

subsection \<open>Embedded headers\<close>

lemma takeWhile_sentinel: "c \<notin> set h \<Longrightarrow> takeWhile (\<lambda>b. b \<noteq> c) (h @ c # t) = h"
  by (induction h) auto

lemma dropWhile_sentinel: "c \<notin> set h \<Longrightarrow> dropWhile (\<lambda>b. b \<noteq> c) (h @ c # t) = c # t"
  by (induction h) auto

text \<open>
  Claim C2, as the code has it. The record \<open>r\<close> at the cursor has fewer than \<open>INT_MAX\<close> bytes
  and holds a control-A, \<open>h\<close> being the bytes in front of the first one and \<open>t\<close> all the bytes
  behind it up to the end of the record (a further control-A is a byte of \<open>t\<close>). With the
  embedded headers enabled, the header scan stops at that first control-A, the header block
  handed to \<open>unescape_local\<close> is \<open>h\<close>, and the length of the target is the length of the record
  less the length of \<open>h\<close> less one. When the allocator fails the pass ends in a null pointer
  access; when \<open>h\<close> ends in a lone backslash the decoder leaves its block; in every other case
  the pass appends the decoded \<open>h\<close> to the call and sets its URI to \<open>t\<close>, with \<open>len\<close> the
  length of \<open>t\<close>. With the embedded headers disabled the URI is the whole record and no header
  is appended.
\<close>

theorem record_split:
  assumes m: "bytes_at w (fcurrent w) = r @ NUL # post" and r: "NUL \<notin> set r"
    and b: "int (length r) < INT_MAX"
    and lt: "fcurrent w < fend w"
    and s: "r = h @ CTRL_A # t" "CTRL_A \<notin> set h"
  shows "(use_embedded_http_headers p \<longrightarrow>
            hdr_scan (bytes_at w (fcurrent w)) 0 = Inr (True, int (length h))
            \<and> header_block (bytes_at w (fcurrent w)) (int (length h)) = h @ [NUL]
            \<and> int (length t) = int (length r) - int (length h) - 1
            \<and> (\<not> heap_ok w \<longrightarrow> set_uri_body p dw w c = Inl Null_pointer)
            \<and> (heap_ok w \<and> lone_backslash_end h \<longrightarrow> set_uri_body p dw w c = Inl Heap_overrun)
            \<and> (heap_ok w \<and> \<not> lone_backslash_end h \<longrightarrow>
                 (\<exists>escaped warns.
                    unescape_local True (h @ [NUL]) = Inr (escaped, warns)
                    \<and> set_uri_body p dw w c =
                        Inr (int (length t), dw,
                             w\<lparr>stderr_warn := stderr_warn w @ warns,
                               fcurrent := fcurrent w + int (length r) + 1\<rparr>,
                             call_set_uri (call_append_request_header c escaped) t))))
         \<and> (\<not> use_embedded_http_headers p \<longrightarrow>
               set_uri_body p dw w c =
                 Inr (int (length r), dw, w\<lparr>fcurrent := fcurrent w + int (length r) + 1\<rparr>,
                      call_set_uri c r))"
proof -
  have h: "NUL \<notin> set h" using r s(1) by simp
  have hl: "int (length h) \<le> INT_MAX" "0 + int (length h) \<le> INT_MAX"
    using b s(1) by simp_all
  have tw: "takeWhile (\<lambda>b. b \<noteq> CTRL_A) r = h"
    unfolding s(1) using s(2) by (rule takeWhile_sentinel)
  have dw: "dropWhile (\<lambda>b. b \<noteq> CTRL_A) r = CTRL_A # t"
    unfolding s(1) using s(2) by (rule dropWhile_sentinel)
  have in_r: "CTRL_A \<in> set r" using s(1) by simp
  note body = read_record [where p = p and dw = dw and c = c,
      OF m r b wrap_around_not_yet [OF lt] refl refl refl]
  have 1: "hdr_scan (bytes_at w (fcurrent w)) 0 = Inr (True, int (length h))"
    unfolding m s(1) using hdr_scan_found [OF h s(2) _ hl(2), of "t @ NUL # post"] by simp
  have 2: "header_block (bytes_at w (fcurrent w)) (int (length h)) = h @ [NUL]"
    unfolding m s(1) using hl(1) by (simp add: header_block_def to_size_t_small)
  have 3: "int (length t) = int (length r) - int (length h) - 1"
    unfolding s(1) by simp
  have pr: "pass_record p (heap_ok w) r c =
       (if \<not> heap_ok w then Inl Null_pointer
        else (case unescape_local (heap_ok w) (h @ [NUL]) of
                Inl e \<Rightarrow> Inl e
              | Inr (escaped, warns) \<Rightarrow>
                  Inr (int (length t), warns,
                       call_set_uri (call_append_request_header c escaped) t)))"
    if "use_embedded_http_headers p"
    using that in_r 3 by (auto simp: pass_record_def tw dw split: sum.splits)
  have 4: "set_uri_body p dw w c = Inl Null_pointer"
    if "use_embedded_http_headers p" "\<not> heap_ok w"
    unfolding body pr [OF that(1)] using that(2) by simp
  have 5: "set_uri_body p dw w c = Inl Heap_overrun"
    if "use_embedded_http_headers p" "heap_ok w \<and> lone_backslash_end h"
    unfolding body pr [OF that(1)] using that(2) unescape_local_cases [OF h] by simp
  have 6: "\<exists>escaped warns.
             unescape_local True (h @ [NUL]) = Inr (escaped, warns)
             \<and> set_uri_body p dw w c =
                 Inr (int (length t), dw,
                      w\<lparr>stderr_warn := stderr_warn w @ warns,
                        fcurrent := fcurrent w + int (length r) + 1\<rparr>,
                      call_set_uri (call_append_request_header c escaped) t)"
    if "use_embedded_http_headers p" "heap_ok w \<and> \<not> lone_backslash_end h"
  proof -
    from unescape_local_cases [OF h] that(2) obtain escaped warns where
      e: "unescape_local True (h @ [NUL]) = Inr (escaped, warns)" by auto
    have "set_uri_body p dw w c =
                 Inr (int (length t), dw,
                      w\<lparr>stderr_warn := stderr_warn w @ warns,
                        fcurrent := fcurrent w + int (length r) + 1\<rparr>,
                      call_set_uri (call_append_request_header c escaped) t)"
      unfolding body pr [OF that(1)] using that(2) e by simp
    with e show ?thesis by blast
  qed
  have 7: "set_uri_body p dw w c =
             Inr (int (length r), dw, w\<lparr>fcurrent := fcurrent w + int (length r) + 1\<rparr>,
                  call_set_uri c r)"
    if "\<not> use_embedded_http_headers p"
    unfolding body using that by (simp add: pass_record_def)
  from 1 2 3 4 5 6 7 show ?thesis by blast
qed

theorem record_split_witness:
  "pass_result (set_uri_body header_mode False
      (mapped_log (''GET-header'' @ [CTRL_A] @ ''/index.html'' @ [NUL]) [] True) new_call)
     = Inr (11, \<lparr>req_uri = ''/index.html'', req_extra_hdrs = [''GET-header'']\<rparr>)
   \<and> pass_result (set_uri_body plain_mode False
      (mapped_log (''GET-header'' @ [CTRL_A] @ ''/index.html'' @ [NUL]) [] True) new_call)
     = Inr (22, \<lparr>req_uri = ''GET-header'' @ [CTRL_A] @ ''/index.html'', req_extra_hdrs = []\<rparr>)"
proof -
  define w where "w = mapped_log (''GET-header'' @ [CTRL_A] @ ''/index.html'' @ [NUL]) [] True"
  have h: "bytes_at w (fcurrent w) = (''GET-header'' @ [CTRL_A] @ ''/index.html'') @ NUL # []"
    "NUL \<notin> set (''GET-header'' @ [CTRL_A] @ ''/index.html'')"
    "int (length (''GET-header'' @ [CTRL_A] @ ''/index.html'')) < INT_MAX"
    "fcurrent w < fend w"
    "''GET-header'' @ [CTRL_A] @ ''/index.html'' = ''GET-header'' @ CTRL_A # ''/index.html''"
    "CTRL_A \<notin> set ''GET-header''"
    by (simp_all add: w_def bytes_at_def INT_MAX_def)
  have u: "unescape_local True (''GET-header'' @ [NUL]) = Inr (''GET-header'', [])"
    by code_simp
  have hm: "use_embedded_http_headers header_mode" "\<not> use_embedded_http_headers plain_mode"
    "heap_ok w" "\<not> lone_backslash_end ''GET-header''"
    by (simp_all add: header_mode_def plain_mode_def w_def lone_backslash_end_def)
  note a = record_split [OF h, where p = header_mode and dw = False and c = new_call]
  note b = record_split [OF h, where p = plain_mode and dw = False and c = new_call]
  from a hm u have "set_uri_body header_mode False w new_call =
      Inr (int (length ''/index.html''), False,
           w\<lparr>stderr_warn := stderr_warn w @ [],
             fcurrent := fcurrent w + int (length (''GET-header'' @ [CTRL_A] @ ''/index.html'')) + 1\<rparr>,
           call_set_uri (call_append_request_header new_call ''GET-header'') ''/index.html'')"
    by auto
  moreover from b hm have "set_uri_body plain_mode False w new_call =
      Inr (int (length (''GET-header'' @ [CTRL_A] @ ''/index.html'')), False,
           w\<lparr>fcurrent := fcurrent w + int (length (''GET-header'' @ [CTRL_A] @ ''/index.html'')) + 1\<rparr>,
           call_set_uri new_call (''GET-header'' @ [CTRL_A] @ ''/index.html''))"
    by blast
  ultimately show ?thesis
    unfolding w_def [symmetric]
    by (simp add: pass_result_def call_set_uri_def call_append_request_header_def new_call_def)
qed

text \<open>The record \<open>A^AB^AC\<close>: the header block is \<open>A\<close> and the second control-A stays in the
  URI. And the record of \<open>2^31\<close> bytes, with the embedded headers disabled: \<open>len\<close> is
  \<open>INT_MIN\<close>, not the length of the record.\<close>

theorem record_split_counterexample:
  "pass_result (set_uri_body header_mode False
      (mapped_log (''A'' @ [CTRL_A] @ ''B'' @ [CTRL_A] @ ''C'' @ [NUL]) [] True) new_call)
     = Inr (3, \<lparr>req_uri = ''B'' @ [CTRL_A] @ ''C'', req_extra_hdrs = [''A'']\<rparr>)
   \<and> CTRL_A \<in> set (''B'' @ [CTRL_A] @ ''C'')
   \<and> int (length long_record) = 2147483648
   \<and> pass_len (set_uri_body plain_mode False (mapped_log (wlog_buffer [long_record]) [] True)
        new_call) = Inr (- 2147483648)"
proof -
  have 1: "pass_result (set_uri_body header_mode False
      (mapped_log (''A'' @ [CTRL_A] @ ''B'' @ [CTRL_A] @ ''C'' @ [NUL]) [] True) new_call)
     = Inr (3, \<lparr>req_uri = ''B'' @ [CTRL_A] @ ''C'', req_extra_hdrs = [''A'']\<rparr>)"
    "CTRL_A \<in> set (''B'' @ [CTRL_A] @ ''C'')"
    by code_simp+
  have p: "\<not> use_embedded_http_headers plain_mode" by (simp add: plain_mode_def)
  have 2: "pass_len (set_uri_body plain_mode False (mapped_log (wlog_buffer [long_record]) [] True)
        new_call) = Inr (- 2147483648)"
    unfolding set_uri_body_long_record [OF p] by (simp add: pass_len_def)
  have 3: "int (length long_record) = 2147483648"
    by (simp add: long_record_props)
  from 1 2 3 show ?thesis by blast
qed

lemma set_uri_body_hdrs:
  assumes "set_uri_body p dw w c = Inr (len, dw', w', c')"
  shows "\<exists>xs. req_extra_hdrs c' = req_extra_hdrs c @ xs"
  using assms
  by (auto simp: set_uri_body_def embedded_headers_def call_set_uri_def
      call_append_request_header_def
      split: sum.splits option.splits if_splits prod.splits)

lemma set_uri_loop_hdrs:
  "set_uri_loop p dw w c = Inr (w', c') \<Longrightarrow> \<exists>xs. req_extra_hdrs c' = req_extra_hdrs c @ xs"
proof (induction p dw w c rule: set_uri_loop.induct)
  case (1 p did_wrap w c)
  from "1.prems" obtain len dw1 w1 c1 where
    b: "set_uri_body p did_wrap w c = Inr (len, dw1, w1, c1)"
    by (subst (asm) set_uri_loop.simps) (auto split: sum.splits)
  from set_uri_body_hdrs [OF b] obtain xs where xs: "req_extra_hdrs c1 = req_extra_hdrs c @ xs"
    by blast
  show ?case
  proof (cases "len = 0")
    case True
    with "1.prems" b have "set_uri_loop p dw1 w1 c1 = Inr (w', c')"
      by (subst (asm) set_uri_loop.simps) simp
    from "1.IH" [OF b refl refl refl True this] xs show ?thesis by auto
  next
    case False
    with "1.prems" b have "c' = c1"
      by (subst (asm) set_uri_loop.simps) simp
    with xs show ?thesis by blast
  qed
qed
text \<open>
  Claim C10, as the code has it. With the embedded headers enabled and the allocator serving
  requests, a record of fewer than \<open>INT_MAX\<close> bytes that is a header block \<open>h\<close>, a control-A
  and nothing else. When \<open>h\<close> ends in a lone backslash, \<open>set_uri\<close> ends with the decoder
  outside its block. In every other case the pass appends the decoded \<open>h\<close> to the call and
  has \<open>len = 0\<close>, so the loop goes on to the next record with the header already in the call;
  whatever call \<open>set_uri\<close> returns in the end still holds that header, behind the headers the
  call had before.
\<close>

theorem skipped_record_keeps_header:
  assumes m: "bytes_at w (fcurrent w) = h @ CTRL_A # NUL # post"
    and h: "NUL \<notin> set h" "CTRL_A \<notin> set h" and b: "int (length h) + 1 < INT_MAX"
    and lt: "fcurrent w < fend w"
    and p: "use_embedded_http_headers p" "heap_ok w"
  shows "(lone_backslash_end h \<longrightarrow> set_uri p w c = Inl Heap_overrun)
         \<and> (\<not> lone_backslash_end h \<longrightarrow>
              (\<exists>escaped warns.
                 unescape_local True (h @ [NUL]) = Inr (escaped, warns)
                 \<and> set_uri_body p False w c =
                     Inr (0, False,
                          w\<lparr>stderr_warn := stderr_warn w @ warns,
                            fcurrent := fcurrent w + int (length h) + 2\<rparr>,
                          call_set_uri (call_append_request_header c escaped) [])
                 \<and> set_uri p w c =
                     set_uri p (w\<lparr>stderr_warn := stderr_warn w @ warns,
                                  fcurrent := fcurrent w + int (length h) + 2\<rparr>)
                       (call_set_uri (call_append_request_header c escaped) [])
                 \<and> (\<forall>w' c'. set_uri p w c = Inr (w', c') \<longrightarrow>
                       (\<exists>xs. req_extra_hdrs c' = req_extra_hdrs c @ escaped # xs))))"
proof -
  have m': "bytes_at w (fcurrent w) = (h @ [CTRL_A]) @ NUL # post" using m by simp
  have r: "NUL \<notin> set (h @ [CTRL_A])" using h by simp
  have b': "int (length (h @ [CTRL_A])) < INT_MAX" using b by simp
  have tw: "takeWhile (\<lambda>b. b \<noteq> CTRL_A) (h @ [CTRL_A]) = h"
    using takeWhile_sentinel [OF h(2), of "[]"] by simp
  have dw: "dropWhile (\<lambda>b. b \<noteq> CTRL_A) (h @ [CTRL_A]) = [CTRL_A]"
    using dropWhile_sentinel [OF h(2), of "[]"] by simp
  note body = read_record [where p = p and dw = False and c = c,
        OF m' r b' wrap_around_not_yet [OF lt] refl refl refl]
  have pr: "pass_record p (heap_ok w) (h @ [CTRL_A]) c =
      (case unescape_local True (h @ [NUL]) of
         Inl e \<Rightarrow> Inl e
       | Inr (escaped, warns) \<Rightarrow>
           Inr (0, warns, call_set_uri (call_append_request_header c escaped) []))"
    using p by (auto simp: pass_record_def tw dw split: sum.splits)
  have 1: "set_uri p w c = Inl Heap_overrun" if "lone_backslash_end h"
  proof -
    from unescape_local_cases [OF h(1)] that
    have "unescape_local True (h @ [NUL]) = Inl Heap_overrun" by simp
    then have "set_uri_body p False w c = Inl Heap_overrun"
      unfolding body pr by simp
    then show ?thesis
      unfolding set_uri_def by (subst set_uri_loop.simps) simp
  qed
  have 2: "\<exists>escaped warns.
             unescape_local True (h @ [NUL]) = Inr (escaped, warns)
             \<and> set_uri_body p False w c =
                 Inr (0, False,
                      w\<lparr>stderr_warn := stderr_warn w @ warns,
                        fcurrent := fcurrent w + int (length h) + 2\<rparr>,
                      call_set_uri (call_append_request_header c escaped) [])
             \<and> set_uri p w c =
                 set_uri p (w\<lparr>stderr_warn := stderr_warn w @ warns,
                              fcurrent := fcurrent w + int (length h) + 2\<rparr>)
                   (call_set_uri (call_append_request_header c escaped) [])
             \<and> (\<forall>w' c'. set_uri p w c = Inr (w', c') \<longrightarrow>
                   (\<exists>xs. req_extra_hdrs c' = req_extra_hdrs c @ escaped # xs))"
    if "\<not> lone_backslash_end h"
  proof -
    from unescape_local_cases [OF h(1)] that obtain escaped warns where
      u: "unescape_local True (h @ [NUL]) = Inr (escaped, warns)" by auto
    define w1 where
      "w1 = w\<lparr>stderr_warn := stderr_warn w @ warns, fcurrent := fcurrent w + int (length h) + 2\<rparr>"
    define c1 where "c1 = call_set_uri (call_append_request_header c escaped) []"
    have b: "set_uri_body p False w c = Inr (0, False, w1, c1)"
      unfolding body pr u by (simp add: w1_def c1_def)
    have l: "set_uri p w c = set_uri p w1 c1"
      unfolding set_uri_def by (subst set_uri_loop.simps) (simp add: b)
    have k: "\<exists>xs. req_extra_hdrs c' = req_extra_hdrs c @ escaped # xs"
      if "set_uri p w c = Inr (w', c')" for w' c'
    proof -
      from that l have "set_uri_loop p False w1 c1 = Inr (w', c')" by (simp add: set_uri_def)
      from set_uri_loop_hdrs [OF this] obtain xs where "req_extra_hdrs c' = req_extra_hdrs c1 @ xs"
        by blast
      then show ?thesis
        by (simp add: c1_def call_set_uri_def call_append_request_header_def)
    qed
    from u b l k show ?thesis unfolding w1_def c1_def by blast
  qed
  from 1 2 show ?thesis by blast
qed

theorem skipped_record_keeps_header_witness:
  "call_after (set_uri header_mode (mapped_log (''H'' @ [CTRL_A, NUL] @ ''/a'' @ [NUL]) [] True) new_call)
     = Inr \<lparr>req_uri = ''/a'', req_extra_hdrs = [''H'']\<rparr>
   \<and> unescape_local True (''H'' @ [NUL]) = Inr (''H'', [])
   \<and> (\<exists>xs. [''H''] = req_extra_hdrs new_call @ ''H'' # xs)"
proof -
  define w where "w = mapped_log (''H'' @ [CTRL_A, NUL] @ ''/a'' @ [NUL]) [] True"
  have h: "bytes_at w (fcurrent w) = ''H'' @ CTRL_A # NUL # (''/a'' @ [NUL])"
    "NUL \<notin> set ''H''" "CTRL_A \<notin> set ''H''" "int (length ''H'') + 1 < INT_MAX"
    "fcurrent w < fend w"
    "use_embedded_http_headers header_mode" "heap_ok w"
    by (simp_all add: w_def header_mode_def bytes_at_def INT_MAX_def)
  have n: "\<not> lone_backslash_end ''H''" by (simp add: lone_backslash_end_def)
  have u: "unescape_local True (''H'' @ [NUL]) = Inr (''H'', [])" by code_simp
  have e: "call_after (set_uri header_mode w new_call) = Inr \<lparr>req_uri = ''/a'', req_extra_hdrs = [''H'']\<rparr>"
    unfolding w_def by code_simp
  then obtain w' where r: "set_uri header_mode w new_call = Inr (w', \<lparr>req_uri = ''/a'', req_extra_hdrs = [''H'']\<rparr>)"
    by (auto simp: call_after_def split: sum.splits)
  from skipped_record_keeps_header [OF h, of new_call] n u r
  have "\<exists>xs. [''H''] = req_extra_hdrs new_call @ ''H'' # xs" by auto
  with e u show ?thesis unfolding w_def by simp
qed

text \<open>A header block of \<open>2^31\<close> bytes, followed by a control-A and nothing else: the count of
  its bytes overflows, and \<open>set_uri\<close> does not return a call. And the record whose header block
  is \<open>H\<close> and a lone backslash, in front of the record \<open>/a\<close>: the decoder leaves its block.\<close>

theorem skipped_record_keeps_header_counterexample:
  "set_uri header_mode (mapped_log (wlog_buffer [long_record @ [CTRL_A]]) [] True) new_call
     = Inl Int_overflow
   \<and> lone_backslash_end (''H'' @ [BSLASH])
   \<and> set_uri header_mode
       (mapped_log (''H'' @ [BSLASH, CTRL_A, NUL] @ ''/a'' @ [NUL]) [] True) new_call
       = Inl Heap_overrun"
proof -
  have p: "use_embedded_http_headers header_mode" by (simp add: header_mode_def)
  note 1 = set_uri_long_header [OF p, of "[]" True new_call]
  have 2: "lone_backslash_end (''H'' @ [BSLASH])"
    "set_uri header_mode
       (mapped_log (''H'' @ [BSLASH, CTRL_A, NUL] @ ''/a'' @ [NUL]) [] True) new_call
       = Inl Heap_overrun"
    by code_simp+
  from 1 2 show ?thesis by blast
qed

subsection \<open>Empty records\<close>

lemma call_set_uri_hdrs:
  "req_extra_hdrs c1 = req_extra_hdrs c2 \<Longrightarrow> call_set_uri c1 u = call_set_uri c2 u"
  by (cases c1; cases c2) (simp add: call_set_uri_def)

lemma pass_record_hdrs:
  assumes "req_extra_hdrs c1 = req_extra_hdrs c2"
  shows "pass_record p ok r c1 = pass_record p ok r c2"
proof -
  have "call_set_uri (call_append_request_header c1 d) u
          = call_set_uri (call_append_request_header c2 d) u" for d u
    using assms by (intro call_set_uri_hdrs) (simp add: call_append_request_header_def)
  then show ?thesis
    using call_set_uri_hdrs [OF assms] by (auto simp: pass_record_def split: sum.splits)
qed

lemma scan_sim_nonempty:
  "req_extra_hdrs c1 = req_extra_hdrs c2 \<Longrightarrow>
     scan_sim t (nonempty t) (scan_records p ok t c1) (scan_records p ok (nonempty t) c2)"
proof (induction t arbitrary: c1 c2)
  case Nil
  then show ?case by (simp add: scan_sim_def)
next
  case (Cons r t)
  show ?case
  proof (cases "r = []")
    case True
    have "req_extra_hdrs (call_set_uri c1 []) = req_extra_hdrs c2"
      using Cons.prems by (simp add: call_set_uri_def)
    from Cons.IH [OF this] show ?thesis
      by (auto simp: scan_sim_def True split: sum.splits)
  next
    case False
    note eq = pass_record_hdrs [OF Cons.prems, of p ok r]
    show ?thesis
    proof (cases "pass_record p ok r c2")
      case (Inl e)
      then show ?thesis by (simp add: scan_sim_def False eq)
    next
      case (Inr x)
      then obtain len ws c' where x: "pass_record p ok r c2 = Inr (len, ws, c')"
        by (cases x) auto
      from Cons.IH [OF refl, of c'] show ?thesis
        by (auto simp: scan_sim_def False eq x split: sum.splits)
    qed
  qed
qed

lemma scan_sim_sym: "scan_sim t1 t2 x y \<Longrightarrow> scan_sim t2 t1 y x"
  by (auto simp: scan_sim_def split: sum.splits)

lemma scan_sim_trans: "scan_sim t1 t2 x y \<Longrightarrow> scan_sim t2 t3 y z \<Longrightarrow> scan_sim t1 t3 x z"
  by (auto simp: scan_sim_def split: sum.splits)

lemma scan_sim_filter:
  assumes "nonempty t1 = nonempty t2" "req_extra_hdrs c1 = req_extra_hdrs c2"
  shows "scan_sim t1 t2 (scan_records p ok t1 c1) (scan_records p ok t2 c2)"
proof -
  have 1: "scan_sim t1 (nonempty t1) (scan_records p ok t1 c1) (scan_records p ok (nonempty t1) c1)"
    by (rule scan_sim_nonempty) simp
  have 2: "scan_sim t2 (nonempty t2) (scan_records p ok t2 c2) (scan_records p ok (nonempty t2) c1)"
    using assms(2) by (intro scan_sim_nonempty) simp
  from 1 scan_sim_sym [OF 2] show ?thesis
    unfolding assms(1) by (rule scan_sim_trans)
qed

lemma next_uri_sim:
  assumes t: "nonempty t1 = nonempty t2" and rs: "nonempty rs1 = nonempty rs2"
  shows "case next_uri p ok rs1 t1 c of
           Inl e \<Rightarrow> next_uri p ok rs2 t2 c = Inl e
         | Inr (wr, k1, ws, c') \<Rightarrow>
             \<exists>k2. next_uri p ok rs2 t2 c = Inr (wr, k2, ws, c')
                \<and> nonempty (drop k1 (if wr then rs1 else t1))
                    = nonempty (drop k2 (if wr then rs2 else t2))"
proof -
  note first = scan_sim_filter [OF t refl, of p ok c]
  show ?thesis
  proof (cases "scan_records p ok t1 c")
    case (Inl e)
    with first have "scan_records p ok t2 c = Inl e" by (simp add: scan_sim_def)
    with Inl show ?thesis by (simp add: next_uri_def)
  next
    case (Inr x)
    then obtain pr k1 ws c1 where x: "scan_records p ok t1 c = Inr (pr, k1, ws, c1)"
      by (cases x) auto
    with first obtain k2 c2 where y: "scan_records p ok t2 c = Inr (pr, k2, ws, c2)"
      and h: "req_extra_hdrs c1 = req_extra_hdrs c2" and e: "pr \<longrightarrow> c1 = c2"
      and d: "nonempty (drop k1 t1) = nonempty (drop k2 t2)"
      by (auto simp: scan_sim_def split: sum.splits)
    show ?thesis
    proof (cases pr)
      case True
      with x y e d show ?thesis by (auto simp: next_uri_def)
    next
      case False
      note second = scan_sim_filter [OF rs h, of p ok]
      show ?thesis
      proof (cases "scan_records p ok rs1 c1")
        case (Inl e)
        with second have "scan_records p ok rs2 c2 = Inl e" by (simp add: scan_sim_def)
        with Inl x y False show ?thesis by (simp add: next_uri_def)
      next
        case (Inr z)
        then obtain pr' j1 ws' c1' where z: "scan_records p ok rs1 c1 = Inr (pr', j1, ws', c1')"
          by (cases z) auto
        with second obtain j2 c2' where z2: "scan_records p ok rs2 c2 = Inr (pr', j2, ws', c2')"
          and e': "pr' \<longrightarrow> c1' = c2'"
          and d': "nonempty (drop j1 rs1) = nonempty (drop j2 rs2)"
          by (auto simp: scan_sim_def split: sum.splits)
        from x y z z2 e' d' False show ?thesis
          by (auto simp: next_uri_def)
      qed
    qed
  qed
qed

lemma set_uri_sim:
  assumes sp: "same_position rs1 rs2 w1 w2"
    and nul: "log_records rs1" "log_records rs2" and ne: "rs1 \<noteq> []" "rs2 \<noteq> []"
    and rs: "nonempty rs1 = nonempty rs2"
  shows "case set_uri p w1 c of
           Inl e \<Rightarrow> set_uri p w2 c = Inl e
         | Inr (w1', c') \<Rightarrow>
             \<exists>w2'. set_uri p w2 c = Inr (w2', c') \<and> same_position rs1 rs2 w1' w2'"
proof -
  from sp obtain d1 t1 d2 t2 where
    at1: "at_record d1 t1 w1" and r1: "d1 @ t1 = rs1"
    and at2: "at_record d2 t2 w2" and r2: "d2 @ t2 = rs2"
    and t: "nonempty t1 = nonempty t2" and ok: "heap_ok w1 = heap_ok w2"
    unfolding same_position_def by blast
  have n1: "\<forall>r\<in>set (d1 @ t1). NUL \<notin> set r \<and> int (length r) < INT_MAX"
    using log_records_set [OF nul(1)] r1 by simp
  have n2: "\<forall>r\<in>set (d2 @ t2). NUL \<notin> set r \<and> int (length r) < INT_MAX"
    using log_records_set [OF nul(2)] r2 by simp
  have e1: "d1 @ t1 \<noteq> []" using ne(1) r1 by simp
  have e2: "d2 @ t2 \<noteq> []" using ne(2) r2 by simp
  note s1 = set_uri_next_uri [OF at1 n1 e1, of p c, unfolded r1]
  note s2 = set_uri_next_uri [OF at2 n2 e2, of p c, unfolded r2 ok [symmetric]]
  note sim = next_uri_sim [OF t rs, of p "heap_ok w1" c]
  show ?thesis
  proof (cases "next_uri p (heap_ok w1) rs1 t1 c")
    case (Inl e)
    with sim have "next_uri p (heap_ok w1) rs2 t2 c = Inl e" by simp
    with Inl show ?thesis by (simp add: s1 s2)
  next
    case (Inr x)
    then obtain wr k1 ws c' where x: "next_uri p (heap_ok w1) rs1 t1 c = Inr (wr, k1, ws, c')"
      by (cases x) auto
    with sim obtain k2 where y: "next_uri p (heap_ok w1) rs2 t2 c = Inr (wr, k2, ws, c')"
      and d: "nonempty (drop k1 (if wr then rs1 else t1)) = nonempty (drop k2 (if wr then rs2 else t2))"
      by auto
    define w1' where "w1' = (if wr then wrapped_world p w1 else w1)
                 \<lparr>stderr_warn := stderr_warn w1 @ ws,
                  fcurrent := int (length (wlog_buffer (if wr then take k1 rs1 else d1 @ take k1 t1)))\<rparr>"
    define w2' where "w2' = (if wr then wrapped_world p w2 else w2)
                 \<lparr>stderr_warn := stderr_warn w2 @ ws,
                  fcurrent := int (length (wlog_buffer (if wr then take k2 rs2 else d2 @ take k2 t2)))\<rparr>"
    have a1: "at_record (if wr then take k1 rs1 else d1 @ take k1 t1)
                (if wr then drop k1 rs1 else drop k1 t1) w1'"
      using r1 by (intro at_record_moved [OF at1])
        (auto simp: w1'_def wrapped_world_def core_exit_def)
    have a2: "at_record (if wr then take k2 rs2 else d2 @ take k2 t2)
                (if wr then drop k2 rs2 else drop k2 t2) w2'"
      using r2 by (intro at_record_moved [OF at2])
        (auto simp: w2'_def wrapped_world_def core_exit_def)
    have b1: "(if wr then take k1 rs1 else d1 @ take k1 t1) @ (if wr then drop k1 rs1 else drop k1 t1)
                = rs1"
      using r1 by auto
    have b2: "(if wr then take k2 rs2 else d2 @ take k2 t2) @ (if wr then drop k2 rs2 else drop k2 t2)
                = rs2"
      using r2 by auto
    have ok': "heap_ok w1' = heap_ok w2'"
      using ok by (simp add: w1'_def w2'_def wrapped_world_def core_exit_def)
    have d': "nonempty (if wr then drop k1 rs1 else drop k1 t1)
               = nonempty (if wr then drop k2 rs2 else drop k2 t2)"
      using d by (cases wr) simp_all
    have "same_position rs1 rs2 w1' w2'"
      unfolding same_position_def using a1 a2 b1 b2 d' ok' by blast
    then show ?thesis
      by (simp add: s1 s2 x y w1'_def w2'_def)
  qed
qed

lemma requests_Suc:
  "requests p (Suc k) w =
     (case set_uri p w new_call of
        Inl e \<Rightarrow> Inl e
      | Inr (w', c) \<Rightarrow> (case requests p k w' of Inl e \<Rightarrow> Inl e | Inr cs \<Rightarrow> Inr (c # cs)))"
  by (simp add: requests_def split: sum.splits prod.splits)

lemma produce_sim:
  assumes "same_position rs1 rs2 w1 w2"
    and nul: "log_records rs1" "log_records rs2" and ne: "rs1 \<noteq> []" "rs2 \<noteq> []"
    and rs: "nonempty rs1 = nonempty rs2"
  shows "requests p k w1 = requests p k w2"
  using assms(1)
proof (induction k arbitrary: w1 w2)
  case 0
  then show ?case by (simp add: requests_def)
next
  case (Suc k)
  note s = set_uri_sim [OF Suc.prems nul ne rs, of p new_call]
  show ?case
  proof (cases "set_uri p w1 new_call")
    case (Inl e)
    with s show ?thesis by (simp add: requests_Suc)
  next
    case (Inr x)
    then obtain w1' c' where x: "set_uri p w1 new_call = Inr (w1', c')" by (cases x) auto
    with s obtain w2' where y: "set_uri p w2 new_call = Inr (w2', c')"
      and sp: "same_position rs1 rs2 w1' w2'"
      by auto
    from Suc.IH [OF sp] show ?thesis
      by (simp add: requests_Suc x y)
  qed
qed

lemma targets_requests: "targets p k w = map_sum id (map req_uri) (requests p k w)"
  by (simp add: targets_def requests_def split: sum.splits)

lemma same_position_mapped_log:
  "nonempty rs1 = nonempty rs2 \<Longrightarrow>
     same_position rs1 rs2 (mapped_log (wlog_buffer rs1) behind1 ok)
       (mapped_log (wlog_buffer rs2) behind2 ok)"
  unfolding same_position_def
  using at_record_mapped_log [of rs1 behind1 ok] at_record_mapped_log [of rs2 behind2 ok]
  by (metis append_Nil mapped_log_sel(1))

lemma collapse_record:
  "NUL \<notin> set r \<Longrightarrow> collapse_terminators (r @ NUL # bs) = r @ collapse_terminators (NUL # bs)"
proof (induction r)
  case Nil
  then show ?case by simp
next
  case (Cons a r)
  then obtain b bs' where "r @ NUL # bs = b # bs'" by (cases r) auto
  with Cons show ?case by auto
qed

lemma collapse_after_terminator:
  "\<forall>r\<in>set rs. NUL \<notin> set r \<Longrightarrow>
     collapse_terminators (NUL # wlog_buffer rs) = NUL # wlog_buffer (nonempty rs)"
proof (induction rs)
  case Nil
  then show ?case by simp
next
  case (Cons r rs)
  then have IH: "collapse_terminators (NUL # wlog_buffer rs) = NUL # wlog_buffer (nonempty rs)"
    and r: "NUL \<notin> set r"
    by simp_all
  show ?case
  proof (cases r)
    case Nil
    with IH show ?thesis by simp
  next
    case (Cons a r')
    with r have "a \<noteq> NUL" by auto
    then have "collapse_terminators (NUL # wlog_buffer (r # rs))
                 = NUL # collapse_terminators (r @ NUL # wlog_buffer rs)"
      by (simp add: Cons)
    also have "\<dots> = NUL # r @ collapse_terminators (NUL # wlog_buffer rs)"
      by (simp add: collapse_record [OF r])
    finally show ?thesis using IH Cons by simp
  qed
qed

lemma collapse_wlog_buffer:
  assumes "\<forall>x\<in>set (r # rs). NUL \<notin> set x"
  shows "collapse_terminators (wlog_buffer (r # rs)) = wlog_buffer (r # nonempty rs)"
proof -
  from assms have r: "NUL \<notin> set r" and rs: "\<forall>x\<in>set rs. NUL \<notin> set x" by simp_all
  show ?thesis
    by (simp add: collapse_record [OF r] collapse_after_terminator [OF rs])
qed

text \<open>
  Claim C6, as the code has it. A log in which every record, the last one too, is followed by
  its NUL and has fewer than \<open>INT_MAX\<close> bytes, with the embedded headers enabled or not: a run
  of \<open>k\<close> calls of \<open>set_uri\<close> hands the host the same targets on the log as on the log in
  which every run of consecutive NULs is collapsed to one NUL. More generally, any two such
  logs with the same non-empty records in the same order hand the host the same calls, URIs
  and headers, or stop with the same error.
\<close>

theorem empty_records_invisible:
  assumes "log_records rs" "rs \<noteq> []"
  shows "targets p k (mapped_log (wlog_buffer rs) behind ok)
           = targets p k (mapped_log (collapse_terminators (wlog_buffer rs)) behind' ok)
         \<and> (log_records rs' \<and> rs' \<noteq> [] \<and> nonempty rs' = nonempty rs \<longrightarrow>
               requests p k (mapped_log (wlog_buffer rs) behind ok)
                 = requests p k (mapped_log (wlog_buffer rs') behind' ok))"
proof -
  have gen: "requests p k (mapped_log (wlog_buffer rs) behind ok)
                 = requests p k (mapped_log (wlog_buffer rs2) behind' ok)"
    if "log_records rs2" "rs2 \<noteq> []" "nonempty rs2 = nonempty rs" for rs2
    using that assms
    by (intro produce_sim [OF same_position_mapped_log]) simp_all
  from assms(2) obtain r t where rt: "rs = r # t" by (cases rs) auto
  have c: "collapse_terminators (wlog_buffer rs) = wlog_buffer (r # nonempty t)"
    using log_records_set [OF assms(1)] unfolding rt by (intro collapse_wlog_buffer) simp
  have "log_records (r # nonempty t)" "r # nonempty t \<noteq> []" "nonempty (r # nonempty t) = nonempty rs"
    using assms(1) by (simp_all add: rt log_records_def list_all_iff)
  from gen [OF this] have "targets p k (mapped_log (wlog_buffer rs) behind ok)
           = targets p k (mapped_log (collapse_terminators (wlog_buffer rs)) behind' ok)"
    by (simp add: targets_requests c)
  with gen show ?thesis by blast
qed

theorem empty_records_invisible_witness:
  "log_records [[], ''/a'', [], [], ''/b'', []]
   \<and> collapse_terminators (wlog_buffer [[], ''/a'', [], [], ''/b'', []]) = wlog_buffer [[], ''/a'', ''/b'']
   \<and> targets plain_mode 3 (mapped_log (wlog_buffer [[], ''/a'', [], [], ''/b'', []]) [] True)
       = Inr [''/a'', ''/b'', ''/a'']
   \<and> targets plain_mode 3 (mapped_log (wlog_buffer [[], ''/a'', ''/b'']) [] True)
       = Inr [''/a'', ''/b'', ''/a'']
   \<and> requests plain_mode 3 (mapped_log (wlog_buffer [[], ''/a'', [], [], ''/b'', []]) [] True)
       = requests plain_mode 3 (mapped_log (wlog_buffer [''/a'', ''/b'']) [] True)"
proof -
  have h: "log_records [[], ''/a'', [], [], ''/b'', []]" "[[], ''/a'', [], [], ''/b'', []] \<noteq> []"
    by (simp_all add: log_records_def INT_MAX_def)
  have g: "log_records [''/a'', ''/b''] \<and> [''/a'', ''/b''] \<noteq> []
      \<and> nonempty [''/a'', ''/b''] = nonempty [[], ''/a'', [], [], ''/b'', []]"
    by (simp add: log_records_def INT_MAX_def)
  have c: "collapse_terminators (wlog_buffer [[], ''/a'', [], [], ''/b'', []])
             = wlog_buffer [[], ''/a'', ''/b'']"
    by code_simp
  have e: "targets plain_mode 3 (mapped_log (wlog_buffer [[], ''/a'', [], [], ''/b'', []]) [] True)
       = Inr [''/a'', ''/b'', ''/a'']"
    by code_simp
  from empty_records_invisible [OF h, of plain_mode 3 "[]" True "[]" "[''/a'', ''/b'']"] g c e h(1)
  show ?thesis by simp
qed

text \<open>With the embedded headers disabled: a call at a record that is not empty and has fewer
  than \<open>INT_MAX\<close> bytes, and a call at an empty record in front of the record of \<open>2^31\<close>
  bytes.\<close>

lemma set_uri_at_record_plain:
  assumes m: "bytes_at w (fcurrent w) = r @ NUL # post" and r: "NUL \<notin> set r" "r \<noteq> []"
    and b: "int (length r) < INT_MAX"
    and lt: "fcurrent w < fend w" and p: "\<not> use_embedded_http_headers p"
  shows "set_uri p w c = Inr (w\<lparr>fcurrent := fcurrent w + int (length r) + 1\<rparr>, call_set_uri c r)"
proof -
  have pr: "pass_record p (heap_ok w) r c = Inr (int (length r), [], call_set_uri c r)"
    using p by (simp add: pass_record_def)
  have "set_uri_body p False w c =
      Inr (int (length r), False, w\<lparr>fcurrent := fcurrent w + int (length r) + 1\<rparr>,
           call_set_uri c r)"
    unfolding read_record [where p = p and dw = False and c = c,
        OF m r(1) b wrap_around_not_yet [OF lt] refl refl refl] pr
    by simp
  then show ?thesis
    unfolding set_uri_def using r(2) by (subst set_uri_loop.simps) simp
qed

lemma set_uri_empty_then_long_record:
  assumes m: "bytes_at w (fcurrent w) = NUL # long_record @ NUL # post"
    and lt: "fcurrent w + 1 < fend w" and p: "\<not> use_embedded_http_headers p"
  shows "set_uri p w c =
      Inr (w\<lparr>fcurrent := fcurrent w - 2147483646\<rparr>,
           call_set_uri c (take (to_size_t (- 2147483648)) (long_record @ NUL # post)))"
proof -
  define w1 where "w1 = w\<lparr>fcurrent := fcurrent w + 1\<rparr>"
  have nn: "0 \<le> fcurrent w"
    using m by (intro bytes_at_nonneg [of w]) simp
  have m0: "bytes_at w (fcurrent w) = [] @ NUL # (long_record @ NUL # post)"
    using m by simp
  have lt0: "fcurrent w < fend w" using lt by simp
  have e: "NUL \<notin> set []" "int (length ([] :: char list)) < INT_MAX"
    by (simp_all add: INT_MAX_def)
  have "set_uri_body p False w c = Inr (0, False, w1, call_set_uri c [])"
    unfolding read_record [where p = p and dw = False and c = c and r = "[]",
        OF m0 e wrap_around_not_yet [OF lt0] refl refl refl]
    by (simp add: w1_def)
  then have 1: "set_uri p w c = set_uri p w1 (call_set_uri c [])"
    unfolding set_uri_def by (subst set_uri_loop.simps) simp
  have "bytes_at w1 (fcurrent w1) = bytes_at w (fcurrent w + int 1)"
    by (simp add: w1_def bytes_at_def)
  also have "\<dots> = drop 1 (bytes_at w (fcurrent w))"
    using nn by (rule bytes_at_add)
  finally have m1: "bytes_at w1 (fcurrent w1) = long_record @ NUL # post"
    unfolding m by simp
  have lt1: "fcurrent w1 < fend w1" using lt by (simp add: w1_def)
  show ?thesis
    unfolding 1 set_uri_at_long_record [OF m1 lt1 p]
    by (simp add: w1_def)
qed

text \<open>The file of two NULs and the byte \<open>b\<close> has no NUL behind its last record. With nothing
  readable behind the file the first call leaves the mapping; on the collapsed file, one byte
  shorter, with a NUL readable behind it, the first call sets the URI \<open>b\<close>. And a log whose
  records are followed by their NULs: a record of \<open>2^31 - 3\<close> bytes, an empty record and the
  record of \<open>2^31\<close> bytes, which begins \<open>2^31 - 1\<close> bytes behind \<open>fbase\<close>. The second call
  takes the cursor back to \<open>fbase\<close> and the third sets the first record again; on the
  collapsed log the second call takes the cursor one byte in front of \<open>fbase\<close> and the third
  reads there.\<close>

theorem empty_records_invisible_counterexample:
  "collapse_terminators ([NUL, NUL] @ ''b'') = [NUL] @ ''b''
   \<and> targets plain_mode 1 (mapped_log ([NUL, NUL] @ ''b'') [] True) = Inl Wlog_overrun
   \<and> targets plain_mode 1 (mapped_log (collapse_terminators ([NUL, NUL] @ ''b'')) [NUL] True)
       = Inr [''b'']
   \<and> collapse_terminators (wlog_buffer [filler_record, [], long_record])
       = wlog_buffer [filler_record, long_record]
   \<and> targets plain_mode 3 (mapped_log (wlog_buffer [filler_record, [], long_record]) [] True)
       = Inr [filler_record, long_record @ [NUL], filler_record]
   \<and> targets plain_mode 3 (mapped_log (wlog_buffer [filler_record, long_record]) [] True)
       = Inl Wlog_overrun"
proof -
  have 1: "collapse_terminators ([NUL, NUL] @ ''b'') = [NUL] @ ''b''"
    "targets plain_mode 1 (mapped_log ([NUL, NUL] @ ''b'') [] True) = Inl Wlog_overrun"
    "targets plain_mode 1 (mapped_log (collapse_terminators ([NUL, NUL] @ ''b'')) [NUL] True)
       = Inr [''b'']"
    by code_simp+
  have p: "\<not> use_embedded_http_headers plain_mode" by (simp add: plain_mode_def)
  have f: "NUL \<notin> set filler_record" "filler_record \<noteq> []" "length filler_record = 2147483645"
    "int (length filler_record) < INT_MAX"
    by (auto simp: filler_record_def INT_MAX_def)
  have l: "long_record \<noteq> []" using long_record_props(3) by auto
  have tk: "take (to_size_t (- 2147483648)) (long_record @ [NUL]) = long_record @ [NUL]"
    by (simp add: to_size_t_def long_record_props)
  have 2: "collapse_terminators (wlog_buffer [filler_record, [], long_record])
       = wlog_buffer [filler_record, long_record]"
    using collapse_wlog_buffer [of filler_record "[[], long_record]"] f(1) long_record_props(1) l
    by simp
  have 3: "targets plain_mode 3 (mapped_log (wlog_buffer [filler_record, [], long_record]) [] True)
       = Inr [filler_record, long_record @ [NUL], filler_record]"
  proof -
    define w0 where "w0 = mapped_log (wlog_buffer [filler_record, [], long_record]) [] True"
    define w1 where "w1 = w0\<lparr>fcurrent := 2147483646\<rparr>"
    define w2 where "w2 = w0\<lparr>fcurrent := 0\<rparr>"
    have m0: "bytes_at w0 (fcurrent w0) = filler_record @ NUL # (NUL # long_record @ [NUL])"
      "fcurrent w0 < fend w0" "fcurrent w0 = 0"
      by (simp_all add: w0_def bytes_at_def f)
    have s1: "set_uri plain_mode w0 new_call = Inr (w1, call_set_uri new_call filler_record)"
      unfolding set_uri_at_record_plain [OF m0(1) f(1,2,4) m0(2) p]
      by (simp add: w1_def m0(3) f(3))
    have "bytes_at w1 (fcurrent w1) = bytes_at w0 (0 + int (length filler_record + 1))"
      by (simp add: w1_def bytes_at_def f(3))
    also have "\<dots> = drop (length filler_record + 1) (bytes_at w0 0)"
      by (intro bytes_at_add) simp
    finally have m1: "bytes_at w1 (fcurrent w1) = NUL # long_record @ NUL # []"
      using m0(1) unfolding m0(3) by simp
    have lt1: "fcurrent w1 + 1 < fend w1"
      by (simp add: w1_def w0_def f(3) long_record_props)
    have s2: "set_uri plain_mode w1 new_call = Inr (w2, call_set_uri new_call (long_record @ [NUL]))"
      unfolding set_uri_empty_then_long_record [OF m1 lt1 p] tk
      by (simp add: w1_def w2_def)
    have m2: "bytes_at w2 (fcurrent w2) = filler_record @ NUL # (NUL # long_record @ [NUL])"
      "fcurrent w2 < fend w2"
      by (simp_all add: w2_def w0_def bytes_at_def f)
    from set_uri_at_record_plain [OF m2(1) f(1,2,4) m2(2) p, of new_call]
    obtain w3 where s3: "set_uri plain_mode w2 new_call = Inr (w3, call_set_uri new_call filler_record)"
      by simp
    have "produce plain_mode 3 w0 =
        Inr (w3, [call_set_uri new_call filler_record, call_set_uri new_call (long_record @ [NUL]),
                  call_set_uri new_call filler_record])"
      by (simp add: numeral_3_eq_3 s1 s2 s3)
    then show ?thesis
      unfolding w0_def [symmetric] by (simp add: targets_def)
  qed
  have 4: "targets plain_mode 3 (mapped_log (wlog_buffer [filler_record, long_record]) [] True)
       = Inl Wlog_overrun"
  proof -
    define w0 where "w0 = mapped_log (wlog_buffer [filler_record, long_record]) [] True"
    define w1 where "w1 = w0\<lparr>fcurrent := 2147483646\<rparr>"
    define w2 where "w2 = w0\<lparr>fcurrent := - 1\<rparr>"
    have m0: "bytes_at w0 (fcurrent w0) = filler_record @ NUL # (long_record @ [NUL])"
      "fcurrent w0 < fend w0" "fcurrent w0 = 0"
      by (simp_all add: w0_def bytes_at_def f)
    have s1: "set_uri plain_mode w0 new_call = Inr (w1, call_set_uri new_call filler_record)"
      unfolding set_uri_at_record_plain [OF m0(1) f(1,2,4) m0(2) p]
      by (simp add: w1_def m0(3) f(3))
    have "bytes_at w1 (fcurrent w1) = bytes_at w0 (0 + int (length filler_record + 1))"
      by (simp add: w1_def bytes_at_def f(3))
    also have "\<dots> = drop (length filler_record + 1) (bytes_at w0 0)"
      by (intro bytes_at_add) simp
    finally have m1: "bytes_at w1 (fcurrent w1) = long_record @ NUL # []"
      using m0(1) unfolding m0(3) by simp
    have lt1: "fcurrent w1 < fend w1"
      by (simp add: w1_def w0_def f(3) long_record_props)
    have s2: "set_uri plain_mode w1 new_call = Inr (w2, call_set_uri new_call (long_record @ [NUL]))"
      unfolding set_uri_at_long_record [OF m1 lt1 p] tk
      by (simp add: w1_def w2_def)
    have s3: "set_uri plain_mode w2 new_call = Inl Wlog_overrun"
      by (intro set_uri_before_fbase) (simp_all add: w2_def w0_def)
    have "produce plain_mode 3 w0 = Inl Wlog_overrun"
      by (simp add: numeral_3_eq_3 s1 s2 s3)
    then show ?thesis
      unfolding w0_def [symmetric] by (simp add: targets_def)
  qed
  from 1 2 3 4 show ?thesis by blast
qed

subsection \<open>A header block that ends in a lone backslash\<close>

text \<open>
  Claim C3. The decoder does fail on an input: with the embedded headers enabled, the log record
  whose header block is \<open>X-Tag: a\<close> followed by one backslash makes \<open>set_uri\<close> decode a string
  that ends in a lone backslash, and the decoder leaves the block of the string. On every string
  that does not end in a lone backslash it returns, as shown above.
\<close>

theorem set_uri_lone_backslash_header:
  "set_uri header_mode
     (mapped_log (''X-Tag: a'' @ [BSLASH, CTRL_A] @ ''/x'' @ [NUL]) [] True) new_call
     = Inl Heap_overrun"
  by code_simp

end
